theory Spec2Isabelle
  imports Main "HOL-Library.Word"
begin

section \<open>The ggLang runtime collector (src/runtime/gg_runtime.c), data model\<close>

text \<open>
  The model follows the LP64 build of the runtime: \<^verbatim>\<open>size_t\<close> and pointers are 64-bit
  words, so every counter wraps around as the C arithmetic does, and
  \<^verbatim>\<open>sizeof(gg_gc_header)\<close> is 24 bytes (a pointer, a \<^verbatim>\<open>size_t\<close>, one byte and padding).
  \<^verbatim>\<open>NULL\<close> is the address 0.
\<close>

type_synonym addr = "64 word"
type_synonym size_t = "64 word"

definition GG_GC_INITIAL_THRESHOLD :: size_t where
  "GG_GC_INITIAL_THRESHOLD = 1024"

definition GG_GC_MAX_ROOTS :: nat where
  "GG_GC_MAX_ROOTS = 4096"

definition header_size :: addr where
  "header_size = 24"

definition pointer_size :: nat where
  "pointer_size = 8"

text \<open>
  One GC-managed allocation: a \<^verbatim>\<open>gg_gc_header\<close> followed by its payload. \<open>header\<close> is the
  address of the header (the identity of the object), \<open>size_bytes\<close> and \<open>marked\<close> are the
  fields \<^verbatim>\<open>size\<close> and \<^verbatim>\<open>marked\<close>, and \<open>body i\<close> is the word \<^verbatim>\<open>((void** )(header + 1))[i]\<close>
  of the payload. The field \<^verbatim>\<open>next\<close> is the order of the list \<open>heap\<close> below: the registry's
  intrusive list is the sequence of objects met from \<^verbatim>\<open>gg_gc.heap\<close> by following
  \<^verbatim>\<open>next\<close> up to \<^verbatim>\<open>NULL\<close>. \<open>block_bytes\<close> is no field of the header: it is the length of
  the block the host allocator handed out at \<open>header\<close>, the argument of the \<^verbatim>\<open>calloc\<close> that
  made the object. The payload words the program may read are the ones inside that
  block.
\<close>

record gg_gc_object =
  header :: addr
  size_bytes :: size_t
  marked :: "8 word"
  body :: "nat \<Rightarrow> 64 word"
  block_bytes :: size_t

text \<open>
  \<^verbatim>\<open>gg_gc_state\<close>, the registry. \<open>roots\<close> holds the entries \<^verbatim>\<open>roots[0 .. root_count - 1]\<close>,
  so \<^verbatim>\<open>root_count\<close> is its length. The last three fields are the part of the
  environment the collector touches: \<open>slot_mem r\<close> is the word read by
  \<^verbatim>\<open>*((void** )r)\<close> for a root slot \<open>r\<close>, \<open>host_freed\<close> lists the arguments of the calls
  to the host allocator's \<^verbatim>\<open>free\<close> in order, and \<open>stderr\<close> lists the lines written to
  the standard error stream.
\<close>

record gg_gc_state =
  heap :: "gg_gc_object list"
  roots :: "addr list"
  alloc_count :: size_t
  threshold :: size_t
  total_allocated :: size_t
  total_collected :: size_t
  collections :: size_t
  memory_limit :: size_t
  slot_mem :: "addr \<Rightarrow> 64 word"
  host_freed :: "addr list"
  stderr :: "string list"

definition root_count :: "gg_gc_state \<Rightarrow> int" where
  "root_count s = int (length (roots s))"

text \<open>
  How a call ends: it returns, the process exits with a code, or it does neither
  because the mark phase it runs does not return (the recursion needs more stack frames
  than the process has, or the scan reads outside a block).
\<close>

datatype alloc_result =
  Returned gg_gc_state addr
| Exited nat gg_gc_state
| No_return

section \<open>Lifecycle\<close>

definition gg_gc_init :: "gg_gc_state \<Rightarrow> gg_gc_state" where
  "gg_gc_init s = s\<lparr>heap := [], roots := [], alloc_count := 0,
     threshold := GG_GC_INITIAL_THRESHOLD, total_allocated := 0, total_collected := 0,
     collections := 0, memory_limit := 0\<rparr>"

fun shutdown_loop :: "gg_gc_object list \<Rightarrow> gg_gc_state \<Rightarrow> gg_gc_state" where
  "shutdown_loop [] s = s"
| "shutdown_loop (obj # rest) s =
     shutdown_loop rest (s\<lparr>total_collected := total_collected s + size_bytes obj,
                            host_freed := host_freed s @ [header obj]\<rparr>)"

definition gg_gc_shutdown :: "gg_gc_state \<Rightarrow> gg_gc_state" where
  "gg_gc_shutdown s =
     (shutdown_loop (heap s) s)\<lparr>heap := [], roots := [], alloc_count := 0,
        total_allocated := 0\<rparr>"

definition gg_gc_set_memory_limit :: "gg_gc_state \<Rightarrow> size_t \<Rightarrow> gg_gc_state" where
  "gg_gc_set_memory_limit s limit_bytes = s\<lparr>memory_limit := limit_bytes\<rparr>"

section \<open>Root set\<close>

definition root_overflow_warning :: string where
  "root_overflow_warning = ''[ggLang GC] Warning: root set overflow, ignoring root''"

definition gg_gc_add_root :: "gg_gc_state \<Rightarrow> addr \<Rightarrow> gg_gc_state" where
  "gg_gc_add_root s root_ptr =
     (if GG_GC_MAX_ROOTS \<le> length (roots s)
      then s\<lparr>stderr := stderr s @ [root_overflow_warning]\<rparr>
      else s\<lparr>roots := roots s @ [root_ptr]\<rparr>)"

text \<open>
  Modelled from the spec: \<^verbatim>\<open>gg_gc_push_root_frame\<close> and \<^verbatim>\<open>gg_gc_pop_root_frame\<close> are
  declared in gg_runtime.h and defined nowhere in the source files. The spec (4.3):
  "\<open>push_frame\<close> captures the current root count; \<open>pop_frame\<close> truncates the root vector
  back to that count."
\<close>

definition gg_gc_push_root_frame :: "gg_gc_state \<Rightarrow> int" where
  "gg_gc_push_root_frame s = root_count s"

definition gg_gc_pop_root_frame :: "gg_gc_state \<Rightarrow> int \<Rightarrow> gg_gc_state" where
  "gg_gc_pop_root_frame s frame = s\<lparr>roots := take (nat frame) (roots s)\<rparr>"

section \<open>Pointer resolution and the mark phase\<close>

text \<open>
  \<^verbatim>\<open>gg_gc_find_header\<close>: the header one header size below \<open>ptr\<close>, when it is on the list;
  \<open>None\<close> is \<^verbatim>\<open>NULL\<close>.
\<close>

fun find_loop :: "gg_gc_object list \<Rightarrow> addr \<Rightarrow> gg_gc_object option" where
  "find_loop [] candidate = None"
| "find_loop (obj # rest) candidate =
     (if header obj = candidate then Some obj else find_loop rest candidate)"

definition gg_gc_find_header :: "gg_gc_state \<Rightarrow> addr \<Rightarrow> gg_gc_object option" where
  "gg_gc_find_header s ptr =
     (if ptr = 0 then None else find_loop (heap s) (ptr - header_size))"

text \<open>The store \<^verbatim>\<open>h->marked = v\<close> through a header pointer \<open>h\<close>.\<close>

definition set_marked :: "addr \<Rightarrow> 8 word \<Rightarrow> gg_gc_object list \<Rightarrow> gg_gc_object list" where
  "set_marked h v objs = map (\<lambda>obj. if header obj = h then obj\<lparr>marked := v\<rparr> else obj) objs"

text \<open>
  \<^verbatim>\<open>gg_gc_mark_object\<close> recurses on the C stack. The first argument is the number of
  stack frames left: a call with none left does not return (\<open>None\<close>), and each nested
  call gets one frame less. \<open>None\<close> is also the result of reading the fields of a header
  pointer that is neither \<^verbatim>\<open>NULL\<close> nor on the list, which no caller passes.
  \<open>scan_body\<close> is the \<^verbatim>\<open>for\<close> loop over the payload words, from index \<open>i\<close> up to
  \<open>word_count\<close>; \<open>words\<close> is the payload seen through the local pointer \<^verbatim>\<open>body\<close>
  (marking writes no payload byte). The loop reads memory: \<^verbatim>\<open>body[i]\<close> is the eight bytes
  from \<^verbatim>\<open>sizeof(gg_gc_header) + 8 * i\<close> on in the block of the object, and the block has
  \<open>words_in_block\<close> whole words after the header. A read at an index \<open>i\<close> that is not
  below \<open>in_block\<close>, the number of those words, is a read outside the block: the loop does
  not return from it (\<open>None\<close>).
\<close>

definition words_in_block :: "gg_gc_object \<Rightarrow> nat" where
  "words_in_block obj = (unat (block_bytes obj) - unat header_size) div pointer_size"

function gg_gc_mark_object :: "nat \<Rightarrow> gg_gc_state \<Rightarrow> addr \<Rightarrow> gg_gc_state option"
  and scan_body :: "nat \<Rightarrow> gg_gc_state \<Rightarrow> (nat \<Rightarrow> 64 word) \<Rightarrow> nat \<Rightarrow> nat \<Rightarrow> nat \<Rightarrow> gg_gc_state option"
where
  "gg_gc_mark_object 0 s h = None"
| "gg_gc_mark_object (Suc d) s h =
     (if h = 0 then Some s
      else case find_loop (heap s) h of
        None \<Rightarrow> None
      | Some obj \<Rightarrow>
          if marked obj \<noteq> 0 then Some s
          else scan_body d (s\<lparr>heap := set_marked h 1 (heap s)\<rparr>) (body obj)
                 (words_in_block obj) (unat (size_bytes obj) div pointer_size) 0)"
| "scan_body d s words in_block word_count i =
     (if i < word_count then
        (if i < in_block then
           (if words i \<noteq> 0 then
              (case gg_gc_find_header s (words i) of
                 Some target \<Rightarrow>
                   if marked target = 0 then
                     (case gg_gc_mark_object d s (header target) of
                        None \<Rightarrow> None
                      | Some s' \<Rightarrow> scan_body d s' words in_block word_count (Suc i))
                   else scan_body d s words in_block word_count (Suc i)
               | None \<Rightarrow> scan_body d s words in_block word_count (Suc i))
            else scan_body d s words in_block word_count (Suc i))
         else None)
      else Some s)"
  by pat_completeness auto
termination
  by (relation "measures
        [\<lambda>x. case x of Inl (d, s, h) \<Rightarrow> d | Inr (d, s, words, in_block, word_count, i) \<Rightarrow> d,
         \<lambda>x. case x of Inl (d, s, h) \<Rightarrow> 0
            | Inr (d, s, words, in_block, word_count, i) \<Rightarrow> Suc (word_count - i)]")
     auto

text \<open>\<^verbatim>\<open>gg_gc_mark\<close>: the loop over the registered roots.\<close>

fun mark_roots :: "nat \<Rightarrow> addr list \<Rightarrow> gg_gc_state \<Rightarrow> gg_gc_state option" where
  "mark_roots d [] s = Some s"
| "mark_roots d (root_ptr # rest) s =
     (if root_ptr = 0 then mark_roots d rest s
      else if slot_mem s root_ptr \<noteq> 0 then
        (case gg_gc_find_header s (slot_mem s root_ptr) of
           Some hdr \<Rightarrow>
             (case gg_gc_mark_object d s (header hdr) of
                None \<Rightarrow> None
              | Some s' \<Rightarrow> mark_roots d rest s')
         | None \<Rightarrow> mark_roots d rest s)
      else mark_roots d rest s)"

definition gg_gc_mark :: "nat \<Rightarrow> gg_gc_state \<Rightarrow> gg_gc_state option" where
  "gg_gc_mark d s = mark_roots d (roots s) s"

section \<open>Sweep and the collection cycle\<close>

text \<open>
  \<^verbatim>\<open>gg_gc_sweep\<close>: \<open>sweep_loop\<close> walks the cells from the cursor on and returns the cells
  that stay linked there.
\<close>

fun sweep_loop :: "gg_gc_object list \<Rightarrow> gg_gc_state \<Rightarrow> gg_gc_object list \<times> gg_gc_state" where
  "sweep_loop [] s = ([], s)"
| "sweep_loop (obj # rest) s =
     (if marked obj = 0 then
        sweep_loop rest (s\<lparr>total_allocated := total_allocated s - size_bytes obj,
                           total_collected := total_collected s + size_bytes obj,
                           host_freed := host_freed s @ [header obj]\<rparr>)
      else
        (case sweep_loop rest s of
           (kept, s') \<Rightarrow> (obj\<lparr>marked := 0\<rparr> # kept, s')))"

definition gg_gc_sweep :: "gg_gc_state \<Rightarrow> gg_gc_state" where
  "gg_gc_sweep s = (case sweep_loop (heap s) s of (kept, s') \<Rightarrow> s'\<lparr>heap := kept\<rparr>)"

fun count_live :: "gg_gc_object list \<Rightarrow> size_t \<Rightarrow> size_t" where
  "count_live [] live_count = live_count"
| "count_live (obj # rest) live_count = count_live rest (live_count + 1)"

definition adapt_threshold :: "gg_gc_state \<Rightarrow> gg_gc_state" where
  "adapt_threshold s =
     (if threshold s div 2 < count_live (heap s) 0
      then s\<lparr>threshold := threshold s * 2\<rparr> else s)"

definition gg_gc_collect :: "nat \<Rightarrow> gg_gc_state \<Rightarrow> gg_gc_state option" where
  "gg_gc_collect d s =
     (case gg_gc_mark d s of
        None \<Rightarrow> None
      | Some s1 \<Rightarrow>
          Some (adapt_threshold
                  ((gg_gc_sweep s1)\<lparr>alloc_count := 0,
                     collections := collections (gg_gc_sweep s1) + 1\<rparr>)))"

section \<open>Allocation and explicit free\<close>

text \<open>\<^verbatim>\<open>%zu\<close>: a number in decimal.\<close>

function zu :: "nat \<Rightarrow> string" where
  "zu n = (if n < 10 then [''0123456789'' ! n] else zu (n div 10) @ [''0123456789'' ! (n mod 10)])"
  by pat_completeness auto
termination
  by (relation "measure (\<lambda>n. n)") auto

definition limit_message :: "gg_gc_state \<Rightarrow> size_t \<Rightarrow> string list" where
  "limit_message s n =
     [''[ggLang GC] Fatal error: memory limit exceeded ('' @ zu (unat (total_allocated s))
        @ '' bytes allocated, limit is '' @ zu (unat (memory_limit s))
        @ '' bytes, requested '' @ zu (unat n) @ '' bytes)'',
      ''[ggLang GC] The application has been terminated due to memory constraints.'',
      ''[ggLang GC] Increase the memory limit with 'gg init --mem <size>' or optimize memory usage.'']"

definition oom_message :: "size_t \<Rightarrow> string list" where
  "oom_message n = [''[ggLang GC] Fatal error: out of memory ('' @ zu (unat n) @ '' bytes)'']"

text \<open>
  The header is filled and linked as the new head. \<open>calloc_request n\<close> is the size
  \<^verbatim>\<open>gg_gc_alloc(n)\<close> asks the host allocator for, \<^verbatim>\<open>sizeof(gg_gc_header) + size\<close> in
  \<^verbatim>\<open>size_t\<close> arithmetic: for \<open>n\<close> from \<open>2\<^sup>6\<^sup>4 - 24\<close> on the sum wraps around and the block
  is shorter than the header and \<open>n\<close> bytes. The block is that long and \<^verbatim>\<open>calloc\<close> hands
  it out zeroed.
\<close>

definition calloc_request :: "size_t \<Rightarrow> size_t" where
  "calloc_request n = header_size + n"

definition link_new :: "gg_gc_state \<Rightarrow> addr \<Rightarrow> size_t \<Rightarrow> gg_gc_state" where
  "link_new s hdr n =
     s\<lparr>heap := \<lparr>header = hdr, size_bytes = n, marked = 0, body = (\<lambda>i. 0),
                block_bytes = calloc_request n\<rparr> # heap s,
       alloc_count := alloc_count s + 1,
       total_allocated := total_allocated s + n\<rparr>"

text \<open>
  The part of \<^verbatim>\<open>gg_gc_alloc\<close> from the first \<^verbatim>\<open>calloc\<close> on. \<open>c1\<close> and \<open>c2\<close> are what the
  host allocator answers to the first call and to the retry, both of them
  \<^verbatim>\<open>calloc(1, sizeof(gg_gc_header) + size)\<close>: the address of the new block, or 0.
\<close>

definition alloc_from_host :: "nat \<Rightarrow> gg_gc_state \<Rightarrow> size_t \<Rightarrow> addr \<Rightarrow> addr \<Rightarrow> alloc_result" where
  "alloc_from_host d s n c1 c2 =
     (if c1 \<noteq> 0 then Returned (link_new s c1 n) (c1 + header_size)
      else case gg_gc_collect d s of
        None \<Rightarrow> No_return
      | Some s3 \<Rightarrow>
          if c2 \<noteq> 0 then Returned (link_new s3 c2 n) (c2 + header_size)
          else Exited 1 (s3\<lparr>stderr := stderr s3 @ oom_message n\<rparr>))"

definition check_limit :: "nat \<Rightarrow> gg_gc_state \<Rightarrow> size_t \<Rightarrow> addr \<Rightarrow> addr \<Rightarrow> alloc_result" where
  "check_limit d s n c1 c2 =
     (if 0 < memory_limit s \<and> memory_limit s < total_allocated s + n then
        (case gg_gc_collect d s of
           None \<Rightarrow> No_return
         | Some s2 \<Rightarrow>
             if memory_limit s2 < total_allocated s2 + n
             then Exited 137 (s2\<lparr>stderr := stderr s2 @ limit_message s2 n\<rparr>)
             else alloc_from_host d s2 n c1 c2)
      else alloc_from_host d s n c1 c2)"

definition gg_gc_alloc :: "nat \<Rightarrow> gg_gc_state \<Rightarrow> size_t \<Rightarrow> addr \<Rightarrow> addr \<Rightarrow> alloc_result" where
  "gg_gc_alloc d s n c1 c2 =
     (if threshold s \<le> alloc_count s then
        (case gg_gc_collect d s of
           None \<Rightarrow> No_return
         | Some s1 \<Rightarrow> check_limit d s1 n c1 c2)
      else check_limit d s n c1 c2)"

definition gg_alloc :: "nat \<Rightarrow> gg_gc_state \<Rightarrow> size_t \<Rightarrow> addr \<Rightarrow> addr \<Rightarrow> alloc_result" where
  "gg_alloc d s n c1 c2 = gg_gc_alloc d s n c1 c2"

text \<open>
  \<^verbatim>\<open>gg_free\<close>: \<open>unlink_loop\<close> walks the list for the header \<open>target\<close> and returns the cell
  together with the list without it.
\<close>

fun unlink_loop :: "gg_gc_object list \<Rightarrow> addr \<Rightarrow> (gg_gc_object \<times> gg_gc_object list) option" where
  "unlink_loop [] target = None"
| "unlink_loop (obj # rest) target =
     (if header obj = target then Some (obj, rest)
      else case unlink_loop rest target of
        None \<Rightarrow> None
      | Some (found, rest') \<Rightarrow> Some (found, obj # rest'))"

definition gg_free :: "gg_gc_state \<Rightarrow> addr \<Rightarrow> gg_gc_state" where
  "gg_free s ptr =
     (if ptr = 0 then s
      else case unlink_loop (heap s) (ptr - header_size) of
        Some (found, rest') \<Rightarrow>
          s\<lparr>heap := rest', total_allocated := total_allocated s - size_bytes found,
            host_freed := host_freed s @ [header found]\<rparr>
      | None \<Rightarrow> s\<lparr>host_freed := host_freed s @ [ptr]\<rparr>)"

definition Memory_free :: "gg_gc_state \<Rightarrow> addr \<Rightarrow> gg_gc_state" where
  "Memory_free s ptr = gg_free s ptr"

section \<open>Notions used by the properties\<close>

text \<open>
  The sum of the \<^verbatim>\<open>size\<close> fields along the list, in \<^verbatim>\<open>size_t\<close> arithmetic.
\<close>

fun heap_bytes :: "gg_gc_object list \<Rightarrow> size_t" where
  "heap_bytes [] = 0"
| "heap_bytes (obj # rest) = size_bytes obj + heap_bytes rest"

text \<open>
  The static initialiser \<^verbatim>\<open>gg_gc = {0}\<close>, with no root slot holding a pointer, nothing
  freed and nothing written yet.
\<close>

definition gg_gc_zero :: gg_gc_state where
  "gg_gc_zero = \<lparr>heap = [], roots = [], alloc_count = 0, threshold = 0,
     total_allocated = 0, total_collected = 0, collections = 0, memory_limit = 0,
     slot_mem = (\<lambda>r. 0), host_freed = [], stderr = []\<rparr>"

text \<open>
  What the host allocator guarantees about the blocks on the list: they are different
  blocks, none of them at \<^verbatim>\<open>NULL\<close>, and the payload address of none of them wraps
  around to \<^verbatim>\<open>NULL\<close>.
\<close>

definition valid_heap :: "gg_gc_object list \<Rightarrow> bool" where
  "valid_heap objs \<longleftrightarrow>
     distinct (map header objs) \<and> (\<forall>obj \<in> set objs. header obj \<noteq> 0 \<and> header obj + header_size \<noteq> 0)"

text \<open>
  The conservative resolution rule in the words of the specification: a word \<open>w\<close>
  resolves to the object with header \<open>h\<close> when \<open>w\<close> minus one header size is \<open>h\<close> and
  \<open>h\<close> is the address of a header on the list. \<open>points_to\<close> is one step of the object
  graph: a payload word of the object at \<open>h\<close> (one of its \<open>size / 8\<close> words) resolves to
  \<open>h'\<close>. \<open>reachable\<close> is reachability from the registered roots: a root entry is the
  address of a slot, the slot holds a word, and a \<^verbatim>\<open>NULL\<close> entry names no slot.
\<close>

definition resolves :: "gg_gc_object list \<Rightarrow> 64 word \<Rightarrow> addr \<Rightarrow> bool" where
  "resolves objs w h \<longleftrightarrow> h \<in> header ` set objs \<and> w - header_size = h"

definition points_to :: "gg_gc_object list \<Rightarrow> addr \<Rightarrow> addr \<Rightarrow> bool" where
  "points_to objs h h' \<longleftrightarrow>
     (\<exists>obj \<in> set objs. header obj = h \<and>
        (\<exists>i < unat (size_bytes obj) div pointer_size. resolves objs (body obj i) h'))"

inductive reachable :: "gg_gc_state \<Rightarrow> addr \<Rightarrow> bool" for s where
  from_root: "r \<in> set (roots s) \<Longrightarrow> r \<noteq> 0 \<Longrightarrow> resolves (heap s) (slot_mem s r) h \<Longrightarrow> reachable s h"
| from_object: "reachable s h \<Longrightarrow> points_to (heap s) h h' \<Longrightarrow> reachable s h'"

text \<open>
  \<open>blocks_hold_payload\<close>: the block of every object is long enough for its header and
  the \<^verbatim>\<open>size\<close> bytes of its payload, as it is when \<^verbatim>\<open>sizeof(gg_gc_header) + size\<close> did not
  wrap around in the \<^verbatim>\<open>gg_gc_alloc\<close> that made it. \<open>requested_blocks\<close>: the block of
  every object is as long as \<^verbatim>\<open>gg_gc_alloc\<close> asks for an object of its \<^verbatim>\<open>size\<close>.

  The mark bits. \<open>all_unmarked\<close> is invariant H3 of the specification; \<open>mark_all N\<close> sets
  the mark bit of the objects whose header is in \<open>N\<close> and \<open>marks_only s s'\<close> says that
  \<open>s'\<close> is \<open>s\<close> with some mark bits set; \<open>dead\<close> and \<open>survivors\<close> are the two halves of
  the list as the sweep sees them.
\<close>

definition blocks_hold_payload :: "gg_gc_object list \<Rightarrow> bool" where
  "blocks_hold_payload objs \<longleftrightarrow>
     (\<forall>obj \<in> set objs. unat header_size + unat (size_bytes obj) \<le> unat (block_bytes obj))"

definition requested_blocks :: "gg_gc_object list \<Rightarrow> bool" where
  "requested_blocks objs \<longleftrightarrow>
     map block_bytes objs = map (\<lambda>obj. calloc_request (size_bytes obj)) objs"

definition all_unmarked :: "gg_gc_object list \<Rightarrow> bool" where
  "all_unmarked objs \<longleftrightarrow> (\<forall>obj \<in> set objs. marked obj = 0)"

definition mark_if :: "addr set \<Rightarrow> gg_gc_object \<Rightarrow> gg_gc_object" where
  "mark_if N obj = (if header obj \<in> N then obj\<lparr>marked := 1\<rparr> else obj)"

definition mark_all :: "addr set \<Rightarrow> gg_gc_object list \<Rightarrow> gg_gc_object list" where
  "mark_all N objs = map (mark_if N) objs"

definition marked_set :: "gg_gc_object list \<Rightarrow> addr set" where
  "marked_set objs = set (map header (filter (\<lambda>obj. marked obj \<noteq> 0) objs))"

definition unmarked_count :: "gg_gc_object list \<Rightarrow> nat" where
  "unmarked_count objs = length (filter (\<lambda>obj. marked obj = 0) objs)"

definition marks_only :: "gg_gc_state \<Rightarrow> gg_gc_state \<Rightarrow> bool" where
  "marks_only s s' \<longleftrightarrow> (\<exists>N. s' = s\<lparr>heap := mark_all N (heap s)\<rparr>)"

definition dead :: "gg_gc_object list \<Rightarrow> gg_gc_object list" where
  "dead objs = filter (\<lambda>obj. marked obj = 0) objs"

definition survivors :: "gg_gc_object list \<Rightarrow> gg_gc_object list" where
  "survivors objs = map (\<lambda>obj. obj\<lparr>marked := 0\<rparr>) (filter (\<lambda>obj. marked obj \<noteq> 0) objs)"

text \<open>
  The headers a scan of the payload words from index \<open>i\<close> on, and a walk over the root
  entries \<open>rs\<close>, have to mark. \<open>marks_from s T s'\<close> is the contract of a marking run from
  the targets \<open>T\<close>: it sets mark bits only, every newly marked header is reachable from
  a target, every header pointed to by a newly marked object is marked, and so is
  every target.
\<close>

definition scan_targets :: "gg_gc_object list \<Rightarrow> (nat \<Rightarrow> 64 word) \<Rightarrow> nat \<Rightarrow> nat \<Rightarrow> addr set" where
  "scan_targets objs words wc i = {t. \<exists>j. i \<le> j \<and> j < wc \<and> resolves objs (words j) t}"

definition root_targets :: "gg_gc_state \<Rightarrow> addr list \<Rightarrow> addr set" where
  "root_targets s rs = {t. \<exists>r \<in> set rs. r \<noteq> 0 \<and> resolves (heap s) (slot_mem s r) t}"

definition marks_from :: "gg_gc_state \<Rightarrow> addr set \<Rightarrow> gg_gc_state \<Rightarrow> bool" where
  "marks_from s T s' \<longleftrightarrow>
     (\<exists>N. s' = s\<lparr>heap := mark_all N (heap s)\<rparr>
        \<and> (\<forall>x \<in> N. \<exists>t \<in> T. (points_to (heap s))\<^sup>*\<^sup>* t x)
        \<and> (\<forall>x \<in> N. \<forall>y. points_to (heap s) x y \<longrightarrow> y \<in> N \<union> marked_set (heap s))
        \<and> T \<subseteq> N \<union> marked_set (heap s))"

text \<open>
  A small heap for the examples: four objects of two words each, in blocks of 40
  bytes. The object at 4096 is
  held by the root slot 16 and points to the object at 8192, which points back; the
  objects at 12288 and 16384 point to each other and nothing else points to them.
\<close>

definition ex_object :: "addr \<Rightarrow> 64 word \<Rightarrow> gg_gc_object" where
  "ex_object h w = \<lparr>header = h, size_bytes = 16, marked = 0,
     body = (\<lambda>i. if i = 0 then w else 0), block_bytes = 40\<rparr>"

definition ex_state :: gg_gc_state where
  "ex_state = gg_gc_zero\<lparr>heap := [ex_object 16384 12312, ex_object 12288 16408,
       ex_object 8192 4120, ex_object 4096 8216],
     roots := [16], slot_mem := (\<lambda>r. if r = 16 then 4120 else 0),
     alloc_count := 4, threshold := 1024, total_allocated := 64\<rparr>"

text \<open>
  \<open>collects d s s'\<close>: one collection cycle takes \<open>s\<close> to \<open>s'\<close>. \<open>at_limit_check\<close> is the state
  in which \<^verbatim>\<open>gg_gc_alloc\<close> tests the memory ceiling, after the collection the threshold
  may have triggered; \<open>returned_state\<close> is the state a call of \<^verbatim>\<open>gg_gc_alloc\<close> returns in,
  if it returns.
\<close>

definition collects :: "nat \<Rightarrow> gg_gc_state \<Rightarrow> gg_gc_state \<Rightarrow> bool" where
  "collects d s s' \<longleftrightarrow> gg_gc_collect d s = Some s'"

definition at_limit_check :: "nat \<Rightarrow> gg_gc_state \<Rightarrow> gg_gc_state option" where
  "at_limit_check d s = (if threshold s \<le> alloc_count s then gg_gc_collect d s else Some s)"

definition returned_state :: "alloc_result \<Rightarrow> gg_gc_state option" where
  "returned_state r = (case r of Returned s p \<Rightarrow> Some s | Exited code s \<Rightarrow> None | No_return \<Rightarrow> None)"

text \<open>
  The sum of the \<^verbatim>\<open>size\<close> fields as a natural number, and the states in which
  \<^verbatim>\<open>total_allocated\<close> is that sum, with no wrap-around.
\<close>

fun nat_bytes :: "gg_gc_object list \<Rightarrow> nat" where
  "nat_bytes [] = 0"
| "nat_bytes (obj # rest) = unat (size_bytes obj) + nat_bytes rest"

definition bytes_exact :: "gg_gc_state \<Rightarrow> bool" where
  "bytes_exact s \<longleftrightarrow> nat_bytes (heap s) = unat (total_allocated s)"

text \<open>
  States for the examples of the memory ceiling. \<open>limit_state\<close> is
  \<^verbatim>\<open>gg_gc_init(); gg_gc_set_memory_limit(1024)\<close>. \<open>wrap_start\<close> is
  \<^verbatim>\<open>gg_gc_init(); gg_gc_set_memory_limit(15); gg_gc_add_root(slot)\<close> with the slot at
  address 16 holding the payload address 4120, and \<open>wrap_state\<close> is the state after
  \<^verbatim>\<open>gg_gc_alloc(10)\<close> and \<^verbatim>\<open>gg_gc_alloc((size_t)-5)\<close> from there: the second request
  passes the ceiling test because \<^verbatim>\<open>total_allocated + size\<close> wraps around to 5, and
  \<^verbatim>\<open>sizeof(gg_gc_header) + size\<close> wraps around to a 19-byte request the host allocator
  grants.
\<close>

definition limit_state :: gg_gc_state where
  "limit_state = gg_gc_set_memory_limit (gg_gc_init gg_gc_zero) 1024"

definition wrap_start :: gg_gc_state where
  "wrap_start = gg_gc_add_root
     (gg_gc_set_memory_limit
        (gg_gc_init (gg_gc_zero\<lparr>slot_mem := (\<lambda>r. if r = 16 then 4120 else 0)\<rparr>)) 15) 16"

definition wrap_state :: gg_gc_state where
  "wrap_state = gg_gc_zero\<lparr>heap :=
       [\<lparr>header = 8192, size_bytes = 18446744073709551611, marked = 0, body = (\<lambda>i. 0),
          block_bytes = 19\<rparr>,
        \<lparr>header = 4096, size_bytes = 10, marked = 0, body = (\<lambda>i. 0), block_bytes = 34\<rparr>],
     roots := [16], slot_mem := (\<lambda>r. if r = 16 then 4120 else 0),
     alloc_count := 2, threshold := 1024, total_allocated := 5, memory_limit := 15\<rparr>"

text \<open>
  States for the example of the byte counter: \<open>ten_state\<close> is
  \<^verbatim>\<open>gg_gc_init(); gg_gc_alloc(10)\<close> and \<open>sum_state\<close> is the state after
  \<^verbatim>\<open>gg_gc_alloc((size_t)-5)\<close> from there, the host allocator having handed out the
  blocks at 4096 and at 8192.
\<close>

definition ten_state :: gg_gc_state where
  "ten_state = gg_gc_zero\<lparr>heap :=
       [\<lparr>header = 4096, size_bytes = 10, marked = 0, body = (\<lambda>i. 0), block_bytes = 34\<rparr>],
     alloc_count := 1, threshold := 1024, total_allocated := 10\<rparr>"

definition sum_state :: gg_gc_state where
  "sum_state = gg_gc_zero\<lparr>heap :=
       [\<lparr>header = 8192, size_bytes = 18446744073709551611, marked = 0, body = (\<lambda>i. 0),
          block_bytes = 19\<rparr>,
        \<lparr>header = 4096, size_bytes = 10, marked = 0, body = (\<lambda>i. 0), block_bytes = 34\<rparr>],
     alloc_count := 2, threshold := 1024, total_allocated := 5\<rparr>"

text \<open>
  States for the examples of the payload scan. \<open>huge_start\<close> is
  \<^verbatim>\<open>gg_gc_init(); gg_gc_add_root(slot)\<close> with the slot at address 16, and \<open>huge_state\<close> is
  the state after \<^verbatim>\<open>*slot = gg_gc_alloc((size_t)-5)\<close> from there, the host allocator
  having handed out the block at 8192: the request \<^verbatim>\<open>sizeof(gg_gc_header) + size\<close> wraps
  around to 19 bytes, and the header records a size of \<open>2\<^sup>6\<^sup>4 - 5\<close> bytes.
\<close>

definition huge_start :: gg_gc_state where
  "huge_start = gg_gc_add_root (gg_gc_init gg_gc_zero) 16"

definition huge_state :: gg_gc_state where
  "huge_state = gg_gc_zero\<lparr>heap :=
       [\<lparr>header = 8192, size_bytes = 18446744073709551611, marked = 0, body = (\<lambda>i. 0),
          block_bytes = 19\<rparr>],
     roots := [16], slot_mem := (\<lambda>r. if r = 16 then 8216 else 0),
     alloc_count := 1, threshold := 1024, total_allocated := 18446744073709551611\<rparr>"

text \<open>
  The states the runtime can be in between two calls of its interface. They start from
  \<^verbatim>\<open>gg_gc_init\<close>; each call that returns gives the next state; and between calls the
  mutator writes payload words and root slots (\<open>after_write\<close>: the header fields and the
  blocks stay as they are). For \<^verbatim>\<open>gg_gc_alloc\<close> the host allocator is taken to hand out a fresh block:
  one that is not \<^verbatim>\<open>NULL\<close>, whose payload address does not wrap around, and that is not
  one of the blocks on the list.
\<close>

definition fresh_block :: "gg_gc_object list \<Rightarrow> addr \<Rightarrow> bool" where
  "fresh_block objs c \<longleftrightarrow> c \<noteq> 0 \<and> c + header_size \<noteq> 0 \<and> c \<notin> header ` set objs"

inductive interface_state :: "gg_gc_state \<Rightarrow> bool" where
  after_init: "interface_state (gg_gc_init s)"
| after_alloc: "interface_state s \<Longrightarrow> gg_gc_alloc d s n c1 c2 = Returned s' p \<Longrightarrow>
     fresh_block (tl (heap s')) (p - header_size) \<Longrightarrow> interface_state s'"
| after_collect: "interface_state s \<Longrightarrow> gg_gc_collect d s = Some s' \<Longrightarrow> interface_state s'"
| after_free: "interface_state s \<Longrightarrow> interface_state (gg_free s ptr)"
| after_add_root: "interface_state s \<Longrightarrow> interface_state (gg_gc_add_root s r)"
| after_set_memory_limit: "interface_state s \<Longrightarrow> interface_state (gg_gc_set_memory_limit s l)"
| after_shutdown: "interface_state s \<Longrightarrow> interface_state (gg_gc_shutdown s)"
| after_write: "interface_state s \<Longrightarrow> map header objs = map header (heap s) \<Longrightarrow>
     map size_bytes objs = map size_bytes (heap s) \<Longrightarrow> map marked objs = map marked (heap s) \<Longrightarrow>
     map block_bytes objs = map block_bytes (heap s) \<Longrightarrow>
     interface_state (s\<lparr>heap := objs, slot_mem := m\<rparr>)"

section \<open>Explicit free of a null pointer\<close>

text \<open>
  C10. \<^verbatim>\<open>gg_free(NULL)\<close>, and so \<^verbatim>\<open>Memory_free(NULL)\<close>, returns at once: no field of the
  registry changes, and the host allocator's \<^verbatim>\<open>free\<close> is not called (the state, with
  its list of \<^verbatim>\<open>free\<close> calls, is the one before the call).
\<close>

theorem gg_free_null_noop: "gg_free s 0 = s \<and> Memory_free s 0 = s"
  by (simp add: gg_free_def Memory_free_def)

section \<open>The root vector\<close>

text \<open>
  C8. At capacity (4096 roots or more) \<^verbatim>\<open>gg_gc_add_root\<close> writes exactly one line to
  the standard error stream and changes nothing else: the root is dropped and the
  call returns. Below capacity the root is appended and the root count grows by one.
\<close>

theorem add_root_capacity:
  "(4096 \<le> root_count s \<longrightarrow>
      gg_gc_add_root s p = s\<lparr>stderr := stderr s @ [root_overflow_warning]\<rparr>
      \<and> roots (gg_gc_add_root s p) = roots s
      \<and> root_count (gg_gc_add_root s p) = root_count s)
   \<and> (root_count s < 4096 \<longrightarrow>
      gg_gc_add_root s p = s\<lparr>roots := roots s @ [p]\<rparr>
      \<and> root_count (gg_gc_add_root s p) = root_count s + 1
      \<and> stderr (gg_gc_add_root s p) = stderr s)"
  by (simp add: gg_gc_add_root_def root_count_def GG_GC_MAX_ROOTS_def)

theorem add_root_capacity_witness:
  "4096 \<le> root_count (gg_gc_zero\<lparr>roots := replicate 4096 8\<rparr>)
   \<and> stderr (gg_gc_add_root (gg_gc_zero\<lparr>roots := replicate 4096 8\<rparr>) 16)
       = [root_overflow_warning]
   \<and> roots (gg_gc_add_root (gg_gc_zero\<lparr>roots := replicate 4096 8\<rparr>) 16) = replicate 4096 8
   \<and> root_count gg_gc_zero < 4096
   \<and> roots (gg_gc_add_root gg_gc_zero 16) = [16]
   \<and> root_count (gg_gc_add_root gg_gc_zero 16) = 1"
  using add_root_capacity [of "gg_gc_zero\<lparr>roots := replicate 4096 8\<rparr>" 16]
    add_root_capacity [of gg_gc_zero 16]
  by (simp add: root_count_def gg_gc_zero_def)

lemma roots_add_many:
  "\<exists>added. roots (foldl gg_gc_add_root s ps) = roots s @ added"
proof (induction ps arbitrary: s)
  case Nil
  show ?case by simp
next
  case (Cons p ps)
  obtain added where "roots (foldl gg_gc_add_root (gg_gc_add_root s p) ps)
      = roots (gg_gc_add_root s p) @ added"
    using Cons.IH by blast
  moreover have "\<exists>one. roots (gg_gc_add_root s p) = roots s @ one"
    by (cases "GG_GC_MAX_ROOTS \<le> length (roots s)") (simp_all add: gg_gc_add_root_def)
  ultimately show ?case
    by auto
qed

text \<open>
  C6. For every registry state, so for every root count \<open>c\<close>, and every sequence \<open>ps\<close> of
  \<open>N\<close> roots: taking the token with \<^verbatim>\<open>gg_gc_push_root_frame\<close>, adding the \<open>N\<close> roots
  with \<^verbatim>\<open>gg_gc_add_root\<close> and calling \<^verbatim>\<open>gg_gc_pop_root_frame\<close> with the token leaves
  the root count at \<open>c\<close>; the root vector itself is the one before the push.
\<close>

theorem root_frame_restores_count:
  "root_count (gg_gc_pop_root_frame (foldl gg_gc_add_root s ps) (gg_gc_push_root_frame s))
     = root_count s
   \<and> roots (gg_gc_pop_root_frame (foldl gg_gc_add_root s ps) (gg_gc_push_root_frame s))
     = roots s"
proof -
  obtain added where "roots (foldl gg_gc_add_root s ps) = roots s @ added"
    using roots_add_many by blast
  then show ?thesis
    by (simp add: gg_gc_pop_root_frame_def gg_gc_push_root_frame_def root_count_def)
qed

section \<open>Shutdown\<close>

lemma shutdown_loop_effect:
  "shutdown_loop objs s =
     s\<lparr>total_collected := total_collected s + heap_bytes objs,
       host_freed := host_freed s @ map header objs\<rparr>"
  by (induction objs arbitrary: s) (simp_all add: add.assoc)

text \<open>
  C4, as the code has it. After \<^verbatim>\<open>gg_gc_shutdown\<close> the list is empty, the root count,
  the allocation-since-last-GC counter and \<^verbatim>\<open>total_allocated\<close> are zero, and every
  header that was on the list has been passed to \<^verbatim>\<open>free\<close>; the threshold, the cycle
  count and the memory ceiling keep the values they had, and \<^verbatim>\<open>total_collected\<close> has
  grown by the sizes of the released objects.
\<close>

theorem shutdown_effect:
  "gg_gc_shutdown s =
     s\<lparr>heap := [], roots := [], alloc_count := 0, total_allocated := 0,
       total_collected := total_collected s + heap_bytes (heap s),
       host_freed := host_freed s @ map header (heap s)\<rparr>"
  by (simp add: gg_gc_shutdown_def shutdown_loop_effect)

text \<open>
  C4 as stated fails: a memory ceiling set after \<^verbatim>\<open>gg_gc_init\<close> is still there after
  \<^verbatim>\<open>gg_gc_shutdown\<close>, while \<^verbatim>\<open>gg_gc_init\<close> sets it to 0.
\<close>

theorem shutdown_not_init_counterexample:
  "memory_limit (gg_gc_shutdown (gg_gc_set_memory_limit (gg_gc_init gg_gc_zero) 100)) = 100
   \<and> memory_limit (gg_gc_init (gg_gc_set_memory_limit (gg_gc_init gg_gc_zero) 100)) = 0"
  by (simp add: gg_gc_shutdown_def gg_gc_init_def gg_gc_set_memory_limit_def
      gg_gc_zero_def)

section \<open>Mark and sweep\<close>

lemma find_loop_Some: "find_loop objs c = Some obj \<Longrightarrow> obj \<in> set objs \<and> header obj = c"
  by (induction objs) (auto split: if_splits)

lemma find_loop_None: "find_loop objs c = None \<longleftrightarrow> c \<notin> header ` set objs"
  by (induction objs) auto

lemma mark_if_fields:
  "header (mark_if N obj) = header obj"
  "size_bytes (mark_if N obj) = size_bytes obj"
  "body (mark_if N obj) = body obj"
  "block_bytes (mark_if N obj) = block_bytes obj"
  "marked (mark_if N obj) = (if header obj \<in> N then 1 else marked obj)"
  by (simp_all add: mark_if_def)

lemma mark_if_mark_if: "mark_if N2 (mark_if N1 obj) = mark_if (N1 \<union> N2) obj"
  by (simp add: mark_if_def)

lemma set_marked_mark_all: "set_marked h 1 objs = mark_all {h} objs"
  by (simp add: set_marked_def mark_all_def mark_if_def)

lemma mark_all_mark_all: "mark_all N2 (mark_all N1 objs) = mark_all (N1 \<union> N2) objs"
  by (simp add: mark_all_def mark_if_mark_if)

lemma mark_all_empty: "mark_all {} objs = objs"
  by (induction objs) (simp_all add: mark_all_def mark_if_def)

lemma headers_mark_all: "map header (mark_all N objs) = map header objs"
  by (simp add: mark_all_def mark_if_fields)

lemma header_set_mark_all: "header ` set (mark_all N objs) = header ` set objs"
  using headers_mark_all [of N objs] by (metis set_map)

lemma length_mark_all: "length (mark_all N objs) = length objs"
  by (simp add: mark_all_def)

lemma valid_heap_mark_all: "valid_heap (mark_all N objs) = valid_heap objs"
proof -
  have "(\<forall>obj \<in> set (mark_all N objs). header obj \<noteq> 0 \<and> header obj + header_size \<noteq> 0)
      \<longleftrightarrow> (\<forall>h \<in> header ` set (mark_all N objs). h \<noteq> 0 \<and> h + header_size \<noteq> 0)"
    by auto
  also have "\<dots> \<longleftrightarrow> (\<forall>obj \<in> set objs. header obj \<noteq> 0 \<and> header obj + header_size \<noteq> 0)"
    unfolding header_set_mark_all by auto
  finally show ?thesis
    by (simp add: valid_heap_def headers_mark_all)
qed

lemma resolves_mark_all: "resolves (mark_all N objs) w h = resolves objs w h"
  by (simp add: resolves_def header_set_mark_all)

lemma points_to_mark_all: "points_to (mark_all N objs) h h' = points_to objs h h'"
  by (simp add: points_to_def resolves_mark_all) (simp add: mark_all_def mark_if_fields)

lemma marked_set_mark_all:
  "marked_set (mark_all N objs) = marked_set objs \<union> (N \<inter> header ` set objs)"
  by (induction objs) (auto simp: marked_set_def mark_all_def mark_if_fields)

lemma find_loop_mark_all:
  "find_loop (mark_all N objs) c = map_option (mark_if N) (find_loop objs c)"
  by (induction objs) (auto simp: mark_all_def mark_if_fields)

lemma unmarked_count_mark_all: "unmarked_count (mark_all N objs) \<le> unmarked_count objs"
  unfolding unmarked_count_def mark_all_def
  by (induction objs) (auto simp: mark_if_fields)

lemma unmarked_count_le_length: "unmarked_count objs \<le> length objs"
  by (simp add: unmarked_count_def)

lemma unmarked_count_mark_one:
  "find_loop objs h = Some obj \<Longrightarrow> marked obj = 0 \<Longrightarrow>
     unmarked_count (mark_all {h} objs) < unmarked_count objs"
proof (induction objs)
  case Nil
  then show ?case by simp
next
  case (Cons a objs)
  show ?case
  proof (cases "header a = h")
    case True
    with Cons.prems have "a = obj" by simp
    with Cons.prems True unmarked_count_mark_all [of "{h}" objs] show ?thesis
      by (simp add: unmarked_count_def mark_all_def mark_if_fields)
  next
    case False
    with Cons show ?thesis
      by (simp add: unmarked_count_def mark_all_def mark_if_fields)
  qed
qed

declare scan_body.simps [simp del]

lemma scan_body_done: "\<not> i < wc \<Longrightarrow> scan_body d s w rd wc i = Some s"
  by (simp add: scan_body.simps)

lemma scan_body_outside: "i < wc \<Longrightarrow> \<not> i < rd \<Longrightarrow> scan_body d s w rd wc i = None"
  by (simp add: scan_body.simps)

lemma scan_body_inside: "i < wc \<Longrightarrow> scan_body d s w rd wc i = Some s' \<Longrightarrow> i < rd"
  by (cases "i < rd") (simp_all add: scan_body_outside)

lemma scan_body_null:
  "i < wc \<Longrightarrow> i < rd \<Longrightarrow> w i = 0 \<Longrightarrow> scan_body d s w rd wc i = scan_body d s w rd wc (Suc i)"
  by (subst scan_body.simps) simp

lemma scan_body_unresolved:
  "i < wc \<Longrightarrow> i < rd \<Longrightarrow> gg_gc_find_header s (w i) = None \<Longrightarrow>
     scan_body d s w rd wc i = scan_body d s w rd wc (Suc i)"
  by (subst scan_body.simps) simp

lemma scan_body_marked:
  "i < wc \<Longrightarrow> i < rd \<Longrightarrow> gg_gc_find_header s (w i) = Some t \<Longrightarrow> marked t \<noteq> 0 \<Longrightarrow>
     scan_body d s w rd wc i = scan_body d s w rd wc (Suc i)"
  by (subst scan_body.simps) simp

lemma scan_body_recurse:
  "i < wc \<Longrightarrow> i < rd \<Longrightarrow> w i \<noteq> 0 \<Longrightarrow> gg_gc_find_header s (w i) = Some t \<Longrightarrow> marked t = 0 \<Longrightarrow>
     scan_body d s w rd wc i =
       (case gg_gc_mark_object d s (header t) of
          None \<Rightarrow> None
        | Some s' \<Rightarrow> scan_body d s' w rd wc (Suc i))"
  by (subst scan_body.simps) simp

lemma marks_only_refl: "marks_only s s"
  unfolding marks_only_def by (rule exI [of _ "{}"]) (simp add: mark_all_empty)

lemma marks_only_trans: "marks_only s s1 \<Longrightarrow> marks_only s1 s2 \<Longrightarrow> marks_only s s2"
  unfolding marks_only_def by (auto simp: mark_all_mark_all)

lemma marks_only_set_marked: "marks_only s (s\<lparr>heap := set_marked h 1 (heap s)\<rparr>)"
  unfolding marks_only_def set_marked_mark_all by blast

lemma marks_only_unmarked_count:
  "marks_only s s' \<Longrightarrow> unmarked_count (heap s') \<le> unmarked_count (heap s)"
  unfolding marks_only_def by (auto simp: unmarked_count_mark_all)

lemma marks_only_headers:
  "marks_only s s' \<Longrightarrow> header ` set (heap s') = header ` set (heap s)"
proof -
  assume "marks_only s s'"
  then obtain N where "heap s' = mark_all N (heap s)"
    unfolding marks_only_def by auto
  then show ?thesis by (simp add: header_set_mark_all)
qed

lemma find_header_Some:
  "gg_gc_find_header s w = Some t \<Longrightarrow> t \<in> set (heap s) \<and> header t = w - header_size \<and> w \<noteq> 0"
  by (auto simp: gg_gc_find_header_def dest: find_loop_Some split: if_splits)

lemma unmarked_count_pos: "t \<in> set objs \<Longrightarrow> marked t = 0 \<Longrightarrow> 0 < unmarked_count objs"
  by (auto simp: unmarked_count_def filter_empty_conv)

lemma blocks_hold_payload_mark_all:
  "blocks_hold_payload (mark_all N objs) = blocks_hold_payload objs"
  by (simp add: blocks_hold_payload_def mark_all_def mark_if_fields)

lemma marks_only_blocks:
  "marks_only s s' \<Longrightarrow> blocks_hold_payload (heap s') = blocks_hold_payload (heap s)"
  unfolding marks_only_def by (auto simp: blocks_hold_payload_mark_all)

lemma payload_words_in_block:
  assumes "blocks_hold_payload objs" and "obj \<in> set objs"
  shows "unat (size_bytes obj) div pointer_size \<le> words_in_block obj"
proof -
  from assms have "unat (size_bytes obj) \<le> unat (block_bytes obj) - unat header_size"
    by (auto simp: blocks_hold_payload_def)
  then show ?thesis
    unfolding words_in_block_def by (rule div_le_mono)
qed

lemma mark_returns:
  "0 < d \<Longrightarrow> unmarked_count (heap s) \<le> d \<Longrightarrow> blocks_hold_payload (heap s) \<Longrightarrow>
     h = 0 \<or> h \<in> header ` set (heap s) \<Longrightarrow>
     \<exists>s'. gg_gc_mark_object d s h = Some s' \<and> marks_only s s'"
  "unmarked_count (heap s) \<le> d \<Longrightarrow> blocks_hold_payload (heap s) \<Longrightarrow> wc \<le> rd \<Longrightarrow>
     \<exists>s'. scan_body d s words rd wc i = Some s' \<and> marks_only s s'"
proof (induction d s h and d s words rd wc i rule: gg_gc_mark_object_scan_body.induct)
  case (1 s h)
  then show ?case by simp
next
  case (2 d s h)
  show ?case
  proof (cases "h = 0")
    case True
    then show ?thesis by (simp add: marks_only_refl)
  next
    case False
    with "2.prems" obtain obj where obj: "find_loop (heap s) h = Some obj"
      using find_loop_None [of "heap s" h] by auto
    show ?thesis
    proof (cases "marked obj = 0")
      case False
      with obj \<open>h \<noteq> 0\<close> show ?thesis by (simp add: marks_only_refl)
    next
      case True
      let ?s2 = "s\<lparr>heap := set_marked h 1 (heap s)\<rparr>"
      have "unmarked_count (heap ?s2) < unmarked_count (heap s)"
        using unmarked_count_mark_one [OF obj True] by (simp add: set_marked_mark_all)
      with "2.prems" have count: "unmarked_count (heap ?s2) \<le> d" by simp
      have blocks: "blocks_hold_payload (heap ?s2)"
        using "2.prems"(3) by (simp add: set_marked_mark_all blocks_hold_payload_mark_all)
      from find_loop_Some [OF obj] have "obj \<in> set (heap s)" by simp
      with "2.prems"(3) have fits: "unat (size_bytes obj) div pointer_size \<le> words_in_block obj"
        by (rule payload_words_in_block)
      from "2.IH" [OF \<open>h \<noteq> 0\<close> obj _ count blocks fits] True obtain s' where
        s': "scan_body d ?s2 (body obj) (words_in_block obj) (unat (size_bytes obj) div pointer_size) 0 = Some s'"
          "marks_only ?s2 s'"
        by auto
      have "marks_only s s'"
        using marks_only_trans [OF marks_only_set_marked s'(2)] .
      with s'(1) obj True \<open>h \<noteq> 0\<close> show ?thesis by simp
    qed
  qed
next
  case (3 d s words rd wc i)
  show ?case
  proof (cases "i < wc")
    case False
    then show ?thesis by (simp add: scan_body_done marks_only_refl)
  next
    case lt: True
    with "3.prems" have rd: "i < rd" by simp
    show ?thesis
    proof (cases "words i = 0")
      case True
      with lt rd "3.IH"(5) "3.prems" show ?thesis by (simp add: scan_body_null)
    next
      case nz: False
      show ?thesis
      proof (cases "gg_gc_find_header s (words i)")
        case None
        with lt rd nz "3.IH"(1) "3.prems" show ?thesis by (simp add: scan_body_unresolved)
      next
        case (Some t)
        show ?thesis
        proof (cases "marked t = 0")
          case False
          with lt rd nz Some "3.IH"(4) "3.prems" show ?thesis by (simp add: scan_body_marked)
        next
          case True
          from find_header_Some [OF Some] have t: "t \<in> set (heap s)" by simp
          with True have "0 < unmarked_count (heap s)" by (simp add: unmarked_count_pos)
          with "3.prems" have "0 < d" by simp
          moreover from t have "header t = 0 \<or> header t \<in> header ` set (heap s)" by simp
          ultimately obtain s1 where
            s1: "gg_gc_mark_object d s (header t) = Some s1" "marks_only s s1"
            using "3.IH"(2) [OF lt rd nz Some True] "3.prems" by blast
          have "unmarked_count (heap s1) \<le> d"
            using marks_only_unmarked_count [OF s1(2)] "3.prems" by simp
          moreover have "blocks_hold_payload (heap s1)"
            using marks_only_blocks [OF s1(2)] "3.prems" by simp
          ultimately obtain s' where
            s': "scan_body d s1 words rd wc (Suc i) = Some s'" "marks_only s1 s'"
            using "3.IH"(3) [OF lt rd nz Some True s1(1)] "3.prems" by blast
          from s1 s' lt rd nz Some True show ?thesis
            by (auto simp: scan_body_recurse intro: marks_only_trans)
        qed
      qed
    qed
  qed
qed

lemma marks_from_refl: "T \<subseteq> marked_set (heap s) \<Longrightarrow> marks_from s T s"
  unfolding marks_from_def by (rule exI [of _ "{}"]) (simp add: mark_all_empty)

lemma marks_from_only: "marks_from s T s' \<Longrightarrow> marks_only s s'"
  unfolding marks_from_def marks_only_def by blast

lemma marks_from_comp:
  assumes "marks_from s T1 s1" and "marks_from s1 T2 s2"
  shows "marks_from s (T1 \<union> T2) s2"
proof -
  from assms(1) obtain N1 where
    s1: "s1 = s\<lparr>heap := mark_all N1 (heap s)\<rparr>"
    and r1: "\<forall>x \<in> N1. \<exists>t \<in> T1. (points_to (heap s))\<^sup>*\<^sup>* t x"
    and c1: "\<forall>x \<in> N1. \<forall>y. points_to (heap s) x y \<longrightarrow> y \<in> N1 \<union> marked_set (heap s)"
    and t1: "T1 \<subseteq> N1 \<union> marked_set (heap s)"
    unfolding marks_from_def by blast
  have pt: "points_to (heap s1) = points_to (heap s)"
    by (intro ext) (simp add: s1 points_to_mark_all)
  have ms: "marked_set (heap s1) = marked_set (heap s) \<union> (N1 \<inter> header ` set (heap s))"
    by (simp add: s1 marked_set_mark_all)
  from assms(2) obtain N2 where
    s2: "s2 = s1\<lparr>heap := mark_all N2 (heap s1)\<rparr>"
    and r2: "\<forall>x \<in> N2. \<exists>t \<in> T2. (points_to (heap s))\<^sup>*\<^sup>* t x"
    and c2: "\<forall>x \<in> N2. \<forall>y. points_to (heap s) x y \<longrightarrow> y \<in> N2 \<union> marked_set (heap s1)"
    and t2: "T2 \<subseteq> N2 \<union> marked_set (heap s1)"
    unfolding marks_from_def pt by blast
  have "s2 = s\<lparr>heap := mark_all (N1 \<union> N2) (heap s)\<rparr>"
    by (simp add: s2 s1 mark_all_mark_all)
  moreover have "\<forall>x \<in> N1 \<union> N2. \<exists>t \<in> T1 \<union> T2. (points_to (heap s))\<^sup>*\<^sup>* t x"
    using r1 r2 by blast
  moreover have "\<forall>x \<in> N1 \<union> N2. \<forall>y. points_to (heap s) x y \<longrightarrow> y \<in> (N1 \<union> N2) \<union> marked_set (heap s)"
    using c1 c2 unfolding ms by blast
  moreover have "T1 \<union> T2 \<subseteq> (N1 \<union> N2) \<union> marked_set (heap s)"
    using t1 t2 unfolding ms by blast
  ultimately show ?thesis
    unfolding marks_from_def by blast
qed

lemma same_header_same_object:
  "distinct (map header objs) \<Longrightarrow> a \<in> set objs \<Longrightarrow> b \<in> set objs \<Longrightarrow> header a = header b \<Longrightarrow> a = b"
  by (auto simp: distinct_map dest: inj_onD)

lemma points_to_found:
  assumes "distinct (map header objs)" and "find_loop objs h = Some obj"
  shows "points_to objs h y \<longleftrightarrow>
     y \<in> scan_targets objs (body obj) (unat (size_bytes obj) div pointer_size) 0"
proof -
  from find_loop_Some [OF assms(2)] have obj: "obj \<in> set objs" "header obj = h" by simp_all
  have "a = obj" if "a \<in> set objs" "header a = h" for a
    using same_header_same_object [OF assms(1) that(1) obj(1)] that(2) obj(2) by simp
  then have "(\<exists>a \<in> set objs. header a = h \<and> P a) \<longleftrightarrow> P obj" for P
    using obj by blast
  then show ?thesis
    unfolding points_to_def scan_targets_def by simp
qed

lemma marks_from_object:
  assumes d: "distinct (map header (heap s))"
    and obj: "find_loop (heap s) h = Some obj"
    and scan: "marks_from (s\<lparr>heap := set_marked h 1 (heap s)\<rparr>)
       (scan_targets (heap s) (body obj) (unat (size_bytes obj) div pointer_size) 0) s'"
  shows "marks_from s {h} s'"
proof -
  let ?T = "scan_targets (heap s) (body obj) (unat (size_bytes obj) div pointer_size) 0"
  let ?s2 = "s\<lparr>heap := mark_all {h} (heap s)\<rparr>"
  from find_loop_Some [OF obj] have hd: "h \<in> header ` set (heap s)" by auto
  have pt: "points_to (heap ?s2) = points_to (heap s)"
    by (intro ext) (simp add: points_to_mark_all)
  have ms: "marked_set (heap ?s2) = marked_set (heap s) \<union> {h}"
    using hd by (auto simp: marked_set_mark_all)
  from scan have "marks_from ?s2 ?T s'"
    by (simp only: set_marked_mark_all)
  then obtain N where
    s': "s' = ?s2\<lparr>heap := mark_all N (heap ?s2)\<rparr>"
    and r: "\<forall>x \<in> N. \<exists>t \<in> ?T. (points_to (heap s))\<^sup>*\<^sup>* t x"
    and c: "\<forall>x \<in> N. \<forall>y. points_to (heap s) x y \<longrightarrow> y \<in> N \<union> marked_set (heap ?s2)"
    and t: "?T \<subseteq> N \<union> marked_set (heap ?s2)"
    unfolding marks_from_def pt by blast
  have child: "points_to (heap s) h y \<longleftrightarrow> y \<in> ?T" for y
    by (rule points_to_found [OF d obj])
  have "s' = s\<lparr>heap := mark_all ({h} \<union> N) (heap s)\<rparr>"
    by (simp add: s' mark_all_mark_all)
  moreover have "\<forall>x \<in> {h} \<union> N. \<exists>t \<in> {h}. (points_to (heap s))\<^sup>*\<^sup>* t x"
  proof
    fix x assume "x \<in> {h} \<union> N"
    then consider "x = h" | "x \<in> N" by blast
    then have "(points_to (heap s))\<^sup>*\<^sup>* h x"
    proof cases
      case 1
      then show ?thesis by simp
    next
      case 2
      with r obtain t where "t \<in> ?T" "(points_to (heap s))\<^sup>*\<^sup>* t x" by blast
      with child [of t] show ?thesis
        by (meson converse_rtranclp_into_rtranclp)
    qed
    then show "\<exists>t \<in> {h}. (points_to (heap s))\<^sup>*\<^sup>* t x" by simp
  qed
  moreover have "\<forall>x \<in> {h} \<union> N. \<forall>y. points_to (heap s) x y \<longrightarrow> y \<in> ({h} \<union> N) \<union> marked_set (heap s)"
    using c t child unfolding ms by blast
  moreover have "{h} \<subseteq> ({h} \<union> N) \<union> marked_set (heap s)"
    by simp
  ultimately show ?thesis
    unfolding marks_from_def by blast
qed

lemma resolves_null:
  assumes "valid_heap objs"
  shows "\<not> resolves objs 0 t"
proof
  assume r: "resolves objs 0 t"
  from r have "t \<in> header ` set objs"
    unfolding resolves_def by (rule conjunct1)
  then obtain obj where obj: "obj \<in> set objs" and t: "t = header obj"
    by (rule imageE)
  from r have "0 - header_size = t"
    unfolding resolves_def by (rule conjunct2)
  then have "0 - header_size + header_size = header obj + header_size"
    unfolding t by (rule arg_cong [where f = "\<lambda>x. x + header_size"])
  then have "header obj + header_size = 0"
    by (simp only: diff_add_cancel)
  moreover from assms obj have "header obj + header_size \<noteq> 0"
    unfolding valid_heap_def by blast
  ultimately show False by contradiction
qed

lemma resolves_unresolved:
  assumes "gg_gc_find_header s w = None" and "w \<noteq> 0"
  shows "\<not> resolves (heap s) w t"
proof -
  from assms have "w - header_size \<notin> header ` set (heap s)"
    by (simp add: gg_gc_find_header_def find_loop_None)
  then show ?thesis
    unfolding resolves_def by metis
qed

lemma resolves_found:
  "gg_gc_find_header s w = Some tg \<Longrightarrow> resolves (heap s) w t \<longleftrightarrow> t = header tg"
proof -
  assume a: "gg_gc_find_header s w = Some tg"
  from find_header_Some [OF a] have tg: "tg \<in> set (heap s)" "header tg = w - header_size"
    by simp_all
  then have "w - header_size \<in> header ` set (heap s)"
    by (metis imageI)
  with tg(2) show ?thesis
    unfolding resolves_def by auto
qed

lemma scan_targets_done: "\<not> i < wc \<Longrightarrow> scan_targets objs words wc i = {}"
  by (auto simp: scan_targets_def)

lemma scan_targets_step:
  assumes lt: "i < wc"
  shows "scan_targets objs words wc i
     = {t. resolves objs (words i) t} \<union> scan_targets objs words wc (Suc i)"
proof (intro set_eqI iffI)
  fix t
  assume "t \<in> scan_targets objs words wc i"
  then obtain j where j: "i \<le> j" "j < wc" "resolves objs (words j) t"
    unfolding scan_targets_def by blast
  show "t \<in> {t. resolves objs (words i) t} \<union> scan_targets objs words wc (Suc i)"
  proof (cases "j = i")
    case True
    with j show ?thesis by simp
  next
    case False
    with j have "Suc i \<le> j" by simp
    with j show ?thesis unfolding scan_targets_def by blast
  qed
next
  fix t
  assume "t \<in> {t. resolves objs (words i) t} \<union> scan_targets objs words wc (Suc i)"
  then consider "resolves objs (words i) t"
    | j where "Suc i \<le> j" "j < wc" "resolves objs (words j) t"
    unfolding scan_targets_def by blast
  then show "t \<in> scan_targets objs words wc i"
  proof cases
    case 1
    with lt show ?thesis unfolding scan_targets_def by blast
  next
    case 2
    then have "i \<le> j" by simp
    with 2 show ?thesis unfolding scan_targets_def by blast
  qed
qed

lemma scan_targets_mark_all:
  "scan_targets (mark_all N objs) words wc i = scan_targets objs words wc i"
  by (simp add: scan_targets_def resolves_mark_all)

lemma marked_in_marked_set: "t \<in> set objs \<Longrightarrow> marked t \<noteq> 0 \<Longrightarrow> header t \<in> marked_set objs"
  by (auto simp: marked_set_def)

lemma marks_only_heap: "marks_only s s' \<Longrightarrow> \<exists>N. heap s' = mark_all N (heap s)"
proof -
  assume "marks_only s s'"
  then obtain N where "s' = s\<lparr>heap := mark_all N (heap s)\<rparr>"
    unfolding marks_only_def by blast
  then have "heap s' = mark_all N (heap s)" by simp
  then show ?thesis ..
qed

lemma marks_from_valid: "marks_from s T s' \<Longrightarrow> valid_heap (heap s') = valid_heap (heap s)"
  using marks_only_heap [OF marks_from_only, of s T s'] by (auto simp: valid_heap_mark_all)

lemma marks_from_scan_targets:
  "marks_from s T s' \<Longrightarrow> scan_targets (heap s') words wc i = scan_targets (heap s) words wc i"
  using marks_only_heap [OF marks_from_only, of s T s'] by (auto simp: scan_targets_mark_all)

lemma mark_object_marks:
  "valid_heap (heap s) \<Longrightarrow> gg_gc_mark_object d s h = Some s' \<Longrightarrow>
     marks_from s ({h} \<inter> header ` set (heap s)) s'"
  "valid_heap (heap s) \<Longrightarrow> scan_body d s words rd wc i = Some s' \<Longrightarrow>
     marks_from s (scan_targets (heap s) words wc i) s'"
proof (induction d s h and d s words rd wc i arbitrary: s' and s'
    rule: gg_gc_mark_object_scan_body.induct)
  case (1 s h)
  then show ?case by simp
next
  case (2 d s h)
  note valid = \<open>valid_heap (heap s)\<close>
  show ?case
  proof (cases "h = 0")
    case True
    with valid have "{h} \<inter> header ` set (heap s) = {}"
      by (auto simp: valid_heap_def)
    moreover from True "2.prems" have "s' = s" by simp
    ultimately show ?thesis by (simp add: marks_from_refl)
  next
    case nz: False
    with "2.prems" obtain obj where obj: "find_loop (heap s) h = Some obj"
      by (cases "find_loop (heap s) h") simp_all
    from find_loop_Some [OF obj] have mem: "obj \<in> set (heap s)" "header obj = h" by simp_all
    then have T: "{h} \<inter> header ` set (heap s) = {h}" by auto
    show ?thesis
    proof (cases "marked obj = 0")
      case False
      with nz obj "2.prems" have "s' = s" by simp
      moreover from False mem have "h \<in> marked_set (heap s)"
        using marked_in_marked_set by blast
      ultimately show ?thesis by (simp add: T marks_from_refl)
    next
      case True
      let ?s2 = "s\<lparr>heap := set_marked h 1 (heap s)\<rparr>"
      let ?wc = "unat (size_bytes obj) div pointer_size"
      from nz obj True "2.prems" have run: "scan_body d ?s2 (body obj) (words_in_block obj) ?wc 0 = Some s'"
        by simp
      have "valid_heap (heap ?s2)"
        using valid by (simp add: set_marked_mark_all valid_heap_mark_all)
      from "2.IH" [OF nz obj _ this run] True
      have "marks_from ?s2 (scan_targets (heap ?s2) (body obj) ?wc 0) s'" by simp
      then have "marks_from ?s2 (scan_targets (heap s) (body obj) ?wc 0) s'"
        by (simp add: set_marked_mark_all scan_targets_mark_all)
      moreover from valid have "distinct (map header (heap s))"
        by (simp add: valid_heap_def)
      ultimately show ?thesis
        unfolding T using obj by (rule marks_from_object [rotated 2])
    qed
  qed
next
  case (3 d s words rd wc i)
  note valid = \<open>valid_heap (heap s)\<close>
  note run = \<open>scan_body d s words rd wc i = Some s'\<close>
  show ?case
  proof (cases "i < wc")
    case False
    with run have "s' = s" by (simp add: scan_body_done)
    with False show ?thesis by (simp add: scan_targets_done marks_from_refl)
  next
    case lt: True
    from lt run have rd: "i < rd" by (rule scan_body_inside)
    note step = scan_targets_step [OF lt, of "heap s" words]
    show ?thesis
    proof (cases "words i = 0")
      case True
      with lt rd run have "scan_body d s words rd wc (Suc i) = Some s'"
        by (simp add: scan_body_null)
      from "3.IH"(5) [OF lt rd _ valid this] True
      have "marks_from s (scan_targets (heap s) words wc (Suc i)) s'" by simp
      moreover have "{t. resolves (heap s) (words i) t} = {}"
        using True resolves_null [OF valid] by simp
      ultimately show ?thesis by (simp add: step)
    next
      case nz: False
      show ?thesis
      proof (cases "gg_gc_find_header s (words i)")
        case None
        with lt rd run have "scan_body d s words rd wc (Suc i) = Some s'"
          by (simp add: scan_body_unresolved)
        from "3.IH"(1) [OF lt rd nz None valid this]
        have "marks_from s (scan_targets (heap s) words wc (Suc i)) s'" .
        moreover have "{t. resolves (heap s) (words i) t} = {}"
          using resolves_unresolved [OF None nz] by simp
        ultimately show ?thesis by (simp add: step)
      next
        case (Some tg)
        from find_header_Some [OF Some] have tg: "tg \<in> set (heap s)" by simp
        have R: "{t. resolves (heap s) (words i) t} = {header tg}"
          using resolves_found [OF Some] by auto
        show ?thesis
        proof (cases "marked tg = 0")
          case False
          with lt rd Some run have "scan_body d s words rd wc (Suc i) = Some s'"
            by (simp add: scan_body_marked)
          from "3.IH"(4) [OF lt rd nz Some False valid this]
          have "marks_from s (scan_targets (heap s) words wc (Suc i)) s'" .
          moreover have "marks_from s {header tg} s"
            using marked_in_marked_set [OF tg False] by (simp add: marks_from_refl)
          ultimately have "marks_from s ({header tg} \<union> scan_targets (heap s) words wc (Suc i)) s'"
            by (rule marks_from_comp [rotated])
          then show ?thesis by (simp add: step R)
        next
          case True
          from lt rd nz Some True run obtain s1 where
            s1: "gg_gc_mark_object d s (header tg) = Some s1"
            and rest: "scan_body d s1 words rd wc (Suc i) = Some s'"
            by (auto simp: scan_body_recurse split: option.splits)
          from tg have "{header tg} \<inter> header ` set (heap s) = {header tg}" by auto
          with "3.IH"(2) [OF lt rd nz Some True valid s1]
          have m1: "marks_from s {header tg} s1" by simp
          then have "valid_heap (heap s1)"
            using valid by (simp add: marks_from_valid)
          from "3.IH"(3) [OF lt rd nz Some True s1 this rest]
          have "marks_from s1 (scan_targets (heap s) words wc (Suc i)) s'"
            by (simp add: marks_from_scan_targets [OF m1])
          with m1 have "marks_from s ({header tg} \<union> scan_targets (heap s) words wc (Suc i)) s'"
            by (rule marks_from_comp)
          then show ?thesis by (simp add: step R)
        qed
      qed
    qed
  qed
qed

lemma root_targets_Nil: "root_targets s [] = {}"
  by (simp add: root_targets_def)

lemma root_targets_skip:
  "r = 0 \<or> (\<forall>t. \<not> resolves (heap s) (slot_mem s r) t) \<Longrightarrow>
     root_targets s (r # rs) = root_targets s rs"
  unfolding root_targets_def by auto

lemma root_targets_hit:
  "r \<noteq> 0 \<Longrightarrow> (\<forall>t. resolves (heap s) (slot_mem s r) t \<longleftrightarrow> t = h) \<Longrightarrow>
     root_targets s (r # rs) = {h} \<union> root_targets s rs"
  unfolding root_targets_def by auto

lemma marks_only_root_targets:
  assumes "marks_only s s'"
  shows "root_targets s' rs = root_targets s rs"
proof -
  from assms obtain N where s': "s' = s\<lparr>heap := mark_all N (heap s)\<rparr>"
    unfolding marks_only_def by blast
  show ?thesis
    by (simp add: root_targets_def s' resolves_mark_all)
qed

lemma mark_roots_marks:
  "valid_heap (heap s) \<Longrightarrow> mark_roots d rs s = Some s' \<Longrightarrow>
     marks_from s (root_targets s rs) s'"
proof (induction rs arbitrary: s)
  case Nil
  then show ?case by (simp add: root_targets_Nil marks_from_refl)
next
  case (Cons r rs)
  note valid = \<open>valid_heap (heap s)\<close>
  note run = \<open>mark_roots d (r # rs) s = Some s'\<close>
  show ?case
  proof (cases "r = 0")
    case True
    with run Cons.IH [OF valid] show ?thesis
      by (simp add: root_targets_skip)
  next
    case rnz: False
    show ?thesis
    proof (cases "slot_mem s r = 0")
      case True
      with rnz run have "mark_roots d rs s = Some s'" by simp
      from Cons.IH [OF valid this] have "marks_from s (root_targets s rs) s'" .
      moreover have "\<forall>t. \<not> resolves (heap s) (slot_mem s r) t"
        using True resolves_null [OF valid] by simp
      ultimately show ?thesis by (simp add: root_targets_skip)
    next
      case nz: False
      show ?thesis
      proof (cases "gg_gc_find_header s (slot_mem s r)")
        case None
        with rnz nz run have "mark_roots d rs s = Some s'" by simp
        from Cons.IH [OF valid this] have "marks_from s (root_targets s rs) s'" .
        moreover have "\<forall>t. \<not> resolves (heap s) (slot_mem s r) t"
          using resolves_unresolved [OF None nz] by simp
        ultimately show ?thesis by (simp add: root_targets_skip)
      next
        case (Some hdr)
        from find_header_Some [OF Some] have hdr: "hdr \<in> set (heap s)" by simp
        have R: "root_targets s (r # rs) = {header hdr} \<union> root_targets s rs"
          by (rule root_targets_hit [OF rnz]) (simp add: resolves_found [OF Some])
        from rnz nz Some run obtain s1 where
          s1: "gg_gc_mark_object d s (header hdr) = Some s1"
          and rest: "mark_roots d rs s1 = Some s'"
          by (auto split: option.splits)
        from hdr have "{header hdr} \<inter> header ` set (heap s) = {header hdr}" by auto
        with mark_object_marks(1) [OF valid s1]
        have m1: "marks_from s {header hdr} s1" by simp
        then have "valid_heap (heap s1)"
          using valid by (simp add: marks_from_valid)
        from Cons.IH [OF this rest]
        have "marks_from s1 (root_targets s rs) s'"
          by (simp add: marks_only_root_targets [OF marks_from_only [OF m1]])
        with m1 have "marks_from s ({header hdr} \<union> root_targets s rs) s'"
          by (rule marks_from_comp)
        then show ?thesis by (simp only: R)
      qed
    qed
  qed
qed

lemma marks_only_length: "marks_only s s' \<Longrightarrow> length (heap s') = length (heap s)"
  using marks_only_heap [of s s'] by (auto simp: length_mark_all)

lemma mark_roots_returns:
  "length (heap s) \<le> d \<Longrightarrow> blocks_hold_payload (heap s) \<Longrightarrow>
     \<exists>s'. mark_roots d rs s = Some s' \<and> marks_only s s'"
proof (induction rs arbitrary: s)
  case Nil
  then show ?case by (simp add: marks_only_refl)
next
  case (Cons r rs)
  note len = \<open>length (heap s) \<le> d\<close>
  note blocks = \<open>blocks_hold_payload (heap s)\<close>
  show ?case
  proof (cases "gg_gc_find_header s (slot_mem s r)")
    case None
    with Cons.IH [OF len blocks] show ?thesis by simp
  next
    case (Some hdr)
    from find_header_Some [OF Some] have hdr: "hdr \<in> set (heap s)" by simp
    have "0 < d"
      using length_pos_if_in_set [OF hdr] len by linarith
    moreover have "unmarked_count (heap s) \<le> d"
      using unmarked_count_le_length [of "heap s"] len by simp
    moreover from hdr have "header hdr = 0 \<or> header hdr \<in> header ` set (heap s)" by simp
    ultimately obtain s1 where
      s1: "gg_gc_mark_object d s (header hdr) = Some s1" "marks_only s s1"
      using mark_returns(1) [OF _ _ blocks] by blast
    from marks_only_length [OF s1(2)] len have "length (heap s1) \<le> d" by simp
    moreover from marks_only_blocks [OF s1(2)] blocks have "blocks_hold_payload (heap s1)"
      by simp
    ultimately obtain s' where
      s': "mark_roots d rs s1 = Some s'" "marks_only s1 s'"
      using Cons.IH by blast
    from Cons.IH [OF len blocks] obtain s0 where
      s0: "mark_roots d rs s = Some s0" "marks_only s s0"
      by blast
    from Some s1 s' s0 show ?thesis
      by (auto intro: marks_only_trans)
  qed
qed

lemma reachable_iff:
  "reachable s h \<longleftrightarrow> (\<exists>t \<in> root_targets s (roots s). (points_to (heap s))\<^sup>*\<^sup>* t h)"
proof
  assume "reachable s h"
  then show "\<exists>t \<in> root_targets s (roots s). (points_to (heap s))\<^sup>*\<^sup>* t h"
  proof induction
    case (from_root r h)
    then have "h \<in> root_targets s (roots s)"
      unfolding root_targets_def by blast
    then show ?case by blast
  next
    case (from_object h h')
    then show ?case by (meson rtranclp.rtrancl_into_rtrancl)
  qed
next
  assume "\<exists>t \<in> root_targets s (roots s). (points_to (heap s))\<^sup>*\<^sup>* t h"
  then obtain t where t: "t \<in> root_targets s (roots s)" and path: "(points_to (heap s))\<^sup>*\<^sup>* t h"
    by blast
  from path show "reachable s h"
  proof induction
    case base
    from t show ?case
      unfolding root_targets_def by (auto intro: reachable.from_root)
  next
    case (step y z)
    then show ?case by (auto intro: reachable.from_object)
  qed
qed

lemma mark_exact:
  assumes valid: "valid_heap (heap s)"
    and clean: "marked_set (heap s) = {}"
    and run: "gg_gc_mark d s = Some s1"
  shows "s1 = s\<lparr>heap := mark_all {h. reachable s h} (heap s)\<rparr>"
proof -
  let ?T = "root_targets s (roots s)"
  from mark_roots_marks [OF valid] run have "marks_from s ?T s1"
    by (simp add: gg_gc_mark_def)
  then obtain N where
    s1: "s1 = s\<lparr>heap := mark_all N (heap s)\<rparr>"
    and r: "\<forall>x \<in> N. \<exists>t \<in> ?T. (points_to (heap s))\<^sup>*\<^sup>* t x"
    and c: "\<forall>x \<in> N. \<forall>y. points_to (heap s) x y \<longrightarrow> y \<in> N"
    and t: "?T \<subseteq> N"
    unfolding marks_from_def clean by auto
  have "x \<in> N" if "reachable s x" for x
  proof -
    from that obtain t where "t \<in> ?T" and path: "(points_to (heap s))\<^sup>*\<^sup>* t x"
      unfolding reachable_iff by blast
    from path \<open>t \<in> ?T\<close> t c show ?thesis
      by induction auto
  qed
  moreover have "reachable s x" if "x \<in> N" for x
    using r that unfolding reachable_iff by blast
  ultimately have "N = {h. reachable s h}" by blast
  with s1 show ?thesis by simp
qed

lemma mark_form:
  "gg_gc_mark_object d s h = Some s' \<Longrightarrow> marks_only s s'"
  "scan_body d s words rd wc i = Some s' \<Longrightarrow> marks_only s s'"
proof (induction d s h and d s words rd wc i arbitrary: s' and s'
    rule: gg_gc_mark_object_scan_body.induct)
  case (1 s h)
  then show ?case by simp
next
  case (2 d s h)
  show ?case
  proof (cases "h = 0")
    case True
    with "2.prems" show ?thesis by (simp add: marks_only_refl)
  next
    case nz: False
    with "2.prems" obtain obj where obj: "find_loop (heap s) h = Some obj"
      by (cases "find_loop (heap s) h") simp_all
    show ?thesis
    proof (cases "marked obj = 0")
      case False
      with nz obj "2.prems" show ?thesis by (simp add: marks_only_refl)
    next
      case True
      with nz obj "2.prems" have
        "scan_body d (s\<lparr>heap := set_marked h 1 (heap s)\<rparr>) (body obj)
           (words_in_block obj) (unat (size_bytes obj) div pointer_size) 0 = Some s'"
        by simp
      from "2.IH" [OF nz obj _ this] True
      have "marks_only (s\<lparr>heap := set_marked h 1 (heap s)\<rparr>) s'" by simp
      with marks_only_set_marked show ?thesis by (rule marks_only_trans)
    qed
  qed
next
  case (3 d s words rd wc i)
  note run = \<open>scan_body d s words rd wc i = Some s'\<close>
  show ?case
  proof (cases "i < wc")
    case False
    with run show ?thesis by (simp add: scan_body_done marks_only_refl)
  next
    case lt: True
    from lt run have rd: "i < rd" by (rule scan_body_inside)
    show ?thesis
    proof (cases "words i = 0")
      case True
      with lt rd run "3.IH"(5) show ?thesis by (simp add: scan_body_null)
    next
      case nz: False
      show ?thesis
      proof (cases "gg_gc_find_header s (words i)")
        case None
        with lt rd nz run "3.IH"(1) show ?thesis by (simp add: scan_body_unresolved)
      next
        case (Some tg)
        show ?thesis
        proof (cases "marked tg = 0")
          case False
          with lt rd nz Some run "3.IH"(4) show ?thesis by (simp add: scan_body_marked)
        next
          case True
          from lt rd nz Some True run obtain s1 where
            s1: "gg_gc_mark_object d s (header tg) = Some s1"
            and rest: "scan_body d s1 words rd wc (Suc i) = Some s'"
            by (auto simp: scan_body_recurse split: option.splits)
          from "3.IH"(2) [OF lt rd nz Some True s1] "3.IH"(3) [OF lt rd nz Some True s1 rest]
          show ?thesis by (rule marks_only_trans)
        qed
      qed
    qed
  qed
qed

lemma mark_roots_form: "mark_roots d rs s = Some s' \<Longrightarrow> marks_only s s'"
proof (induction rs arbitrary: s)
  case Nil
  then show ?case by (simp add: marks_only_refl)
next
  case (Cons r rs)
  show ?case
  proof (cases "gg_gc_find_header s (slot_mem s r)")
    case None
    with Cons show ?thesis by (simp split: if_splits)
  next
    case (Some hdr)
    show ?thesis
    proof (cases "r = 0 \<or> slot_mem s r = 0")
      case True
      with Cons show ?thesis by (auto split: if_splits)
    next
      case False
      with Some Cons.prems obtain s1 where
        s1: "gg_gc_mark_object d s (header hdr) = Some s1"
        and rest: "mark_roots d rs s1 = Some s'"
        by (auto split: option.splits)
      from mark_form(1) [OF s1] Cons.IH [OF rest] show ?thesis
        by (rule marks_only_trans)
    qed
  qed
qed

lemma gg_gc_mark_form: "gg_gc_mark d s = Some s' \<Longrightarrow> marks_only s s'"
  unfolding gg_gc_mark_def by (rule mark_roots_form)

lemma gg_gc_mark_returns:
  "length (heap s) \<le> d \<Longrightarrow> blocks_hold_payload (heap s) \<Longrightarrow> \<exists>s'. gg_gc_mark d s = Some s'"
  unfolding gg_gc_mark_def using mark_roots_returns by blast

lemma sweep_loop_effect:
  "sweep_loop objs s =
     (survivors objs,
      s\<lparr>total_allocated := total_allocated s - heap_bytes (dead objs),
        total_collected := total_collected s + heap_bytes (dead objs),
        host_freed := host_freed s @ map header (dead objs)\<rparr>)"
  by (induction objs arbitrary: s) (simp_all add: survivors_def dead_def algebra_simps)

lemma gg_gc_sweep_effect:
  "gg_gc_sweep s =
     s\<lparr>heap := survivors (heap s),
       total_allocated := total_allocated s - heap_bytes (dead (heap s)),
       total_collected := total_collected s + heap_bytes (dead (heap s)),
       host_freed := host_freed s @ map header (dead (heap s))\<rparr>"
  by (simp add: gg_gc_sweep_def sweep_loop_effect)

lemma collect_effect:
  assumes "gg_gc_collect d s = Some s'"
  shows "\<exists>s1. gg_gc_mark d s = Some s1 \<and> marks_only s s1 \<and>
     s' = adapt_threshold
       (s\<lparr>heap := survivors (heap s1),
          total_allocated := total_allocated s - heap_bytes (dead (heap s1)),
          total_collected := total_collected s + heap_bytes (dead (heap s1)),
          host_freed := host_freed s @ map header (dead (heap s1)),
          alloc_count := 0, collections := collections s + 1\<rparr>)"
proof -
  from assms obtain s1 where s1: "gg_gc_mark d s = Some s1"
    by (auto simp: gg_gc_collect_def split: option.splits)
  from gg_gc_mark_form [OF s1] have m: "marks_only s s1" .
  then obtain N where N: "s1 = s\<lparr>heap := mark_all N (heap s)\<rparr>"
    unfolding marks_only_def by blast
  from assms s1 have "s' = adapt_threshold
      ((gg_gc_sweep s1)\<lparr>alloc_count := 0, collections := collections (gg_gc_sweep s1) + 1\<rparr>)"
    by (simp add: gg_gc_collect_def)
  also have "(gg_gc_sweep s1)\<lparr>alloc_count := 0, collections := collections (gg_gc_sweep s1) + 1\<rparr>
      = s\<lparr>heap := survivors (heap s1),
          total_allocated := total_allocated s - heap_bytes (dead (heap s1)),
          total_collected := total_collected s + heap_bytes (dead (heap s1)),
          host_freed := host_freed s @ map header (dead (heap s1)),
          alloc_count := 0, collections := collections s + 1\<rparr>"
    unfolding gg_gc_sweep_effect by (simp add: N)
  finally show ?thesis using s1 m by blast
qed

lemma gg_gc_collect_returns:
  "length (heap s) \<le> d \<Longrightarrow> blocks_hold_payload (heap s) \<Longrightarrow> \<exists>s'. gg_gc_collect d s = Some s'"
  using gg_gc_mark_returns [of s d] by (auto simp: gg_gc_collect_def)

lemma count_live_eq: "count_live objs n = n + of_nat (length objs)"
  by (induction objs arbitrary: n) (simp_all add: algebra_simps)

lemma survivors_unmarked: "all_unmarked (survivors objs)"
  by (simp add: all_unmarked_def survivors_def)

lemma heap_adapt_threshold: "heap (adapt_threshold s) = heap s"
  by (simp add: adapt_threshold_def)

lemma survivors_mark_all:
  "all_unmarked objs \<Longrightarrow> survivors (mark_all N objs) = filter (\<lambda>obj. header obj \<in> N) objs"
  by (induction objs) (auto simp: all_unmarked_def survivors_def mark_all_def mark_if_def)

lemma dead_mark_all:
  "all_unmarked objs \<Longrightarrow> dead (mark_all N objs) = filter (\<lambda>obj. header obj \<notin> N) objs"
  by (induction objs) (auto simp: all_unmarked_def dead_def mark_all_def mark_if_def)

lemma all_unmarked_marked_set: "all_unmarked objs \<Longrightarrow> marked_set objs = {}"
  by (auto simp: all_unmarked_def marked_set_def filter_empty_conv)

text \<open>
  C1. Take a state whose list is well formed (\<open>valid_heap\<close>) and whose mark bits are
  all 0; every state between two calls of the interface is such a state
  (\<open>interface_state_invariant\<close> below). If \<^verbatim>\<open>gg_gc_collect\<close> has at least
  as many stack frames as there are objects, and the block of every object holds its
  payload (between two calls of the interface: no object has a \<^verbatim>\<open>size\<close> of \<open>2\<^sup>6\<^sup>4 - 24\<close> or
  more, \<open>blocks_hold_payload_requested\<close> below), it returns; and whenever it returns, the
  list holds exactly the objects reachable from a registered root under the
  conservative rule, unchanged and in their order, and exactly the headers of the
  other objects have been passed to the host allocator's \<^verbatim>\<open>free\<close>.
\<close>

theorem collect_keeps_exactly_reachable:
  assumes "valid_heap (heap s)" and "all_unmarked (heap s)"
  shows "(length (heap s) \<le> d \<and> blocks_hold_payload (heap s)
            \<longrightarrow> (\<exists>s'. gg_gc_collect d s = Some s'))
    \<and> (\<forall>s'. gg_gc_collect d s = Some s' \<longrightarrow>
          heap s' = filter (\<lambda>obj. reachable s (header obj)) (heap s)
          \<and> host_freed s' = host_freed s
               @ map header (filter (\<lambda>obj. \<not> reachable s (header obj)) (heap s)))"
proof (intro conjI impI allI)
  assume "length (heap s) \<le> d \<and> blocks_hold_payload (heap s)"
  then show "\<exists>s'. gg_gc_collect d s = Some s'" by (simp add: gg_gc_collect_returns)
next
  fix s'
  assume run: "gg_gc_collect d s = Some s'"
  from collect_effect [OF run] obtain s1 where
    s1: "gg_gc_mark d s = Some s1"
    and s': "s' = adapt_threshold
       (s\<lparr>heap := survivors (heap s1),
          total_allocated := total_allocated s - heap_bytes (dead (heap s1)),
          total_collected := total_collected s + heap_bytes (dead (heap s1)),
          host_freed := host_freed s @ map header (dead (heap s1)),
          alloc_count := 0, collections := collections s + 1\<rparr>)"
    by blast
  from mark_exact [OF assms(1) all_unmarked_marked_set [OF assms(2)] s1]
  have h1: "heap s1 = mark_all {h. reachable s h} (heap s)" by simp
  show "heap s' = filter (\<lambda>obj. reachable s (header obj)) (heap s)"
    by (simp add: s' heap_adapt_threshold h1 survivors_mark_all [OF assms(2)])
  show "host_freed s' = host_freed s
      @ map header (filter (\<lambda>obj. \<not> reachable s (header obj)) (heap s))"
    by (simp add: s' adapt_threshold_def h1 dead_mark_all [OF assms(2)])
qed

lemmas ex_defs = ex_state_def ex_object_def gg_gc_zero_def

lemmas run_defs = gg_gc_collect_def gg_gc_mark_def gg_gc_find_header_def header_size_def
  pointer_size_def words_in_block_def set_marked_def scan_body.simps gg_gc_sweep_def
  adapt_threshold_def

lemma ex_state_valid: "valid_heap (heap ex_state) \<and> all_unmarked (heap ex_state)"
  by (simp add: valid_heap_def all_unmarked_def ex_defs header_size_def)

lemma ex_state_blocks: "blocks_hold_payload (heap ex_state)"
  by (simp add: blocks_hold_payload_def ex_defs header_size_def)

theorem collect_keeps_exactly_reachable_witness:
  "valid_heap (heap ex_state) \<and> all_unmarked (heap ex_state)
   \<and> length (heap ex_state) \<le> 4 \<and> blocks_hold_payload (heap ex_state)
   \<and> (\<exists>s'. gg_gc_collect 4 ex_state = Some s'
         \<and> heap s' = filter (\<lambda>obj. reachable ex_state (header obj)) (heap ex_state)
         \<and> host_freed s' = host_freed ex_state
              @ map header (filter (\<lambda>obj. \<not> reachable ex_state (header obj)) (heap ex_state)))"
proof -
  have v: "valid_heap (heap ex_state)" and u: "all_unmarked (heap ex_state)"
    using ex_state_valid by simp_all
  have l: "length (heap ex_state) \<le> 4"
    by (simp add: ex_defs)
  from collect_keeps_exactly_reachable [OF v u, of 4] v u l ex_state_blocks show ?thesis
    by blast
qed

text \<open>The collection of the example heap, computed: the two objects of the rooted cycle stay.\<close>

lemma ex_collect:
  "map_option (map header \<circ> heap) (gg_gc_collect (Suc (Suc 0)) ex_state) = Some [8192, 4096]
   \<and> map_option host_freed (gg_gc_collect (Suc (Suc 0)) ex_state) = Some [16384, 12288]"
  by (simp add: ex_defs run_defs)

text \<open>
  What the mark phase keeps of termination. On a list where the block of every object holds its
  payload the phase returns, cycles included, and its recursion is no deeper than the
  number of objects: \<^verbatim>\<open>gg_gc_mark\<close> returns when it has as many stack frames as there
  are objects on the list, and \<^verbatim>\<open>gg_gc_mark_object\<close> when it has at least one frame and
  as many as there are unmarked objects. On every list, a call on \<^verbatim>\<open>NULL\<close> or on a
  marked header returns at once with the state unchanged; a call on an unmarked header
  sets the mark bit before it scans the payload; when a call on a header has returned,
  that header is marked; and a call only ever sets mark bits, so a marked header stays
  marked and no later call of the phase scans its payload again.
\<close>

lemma mark_returns_within_blocks:
  "(length (heap s) \<le> d \<and> blocks_hold_payload (heap s) \<longrightarrow> (\<exists>s'. gg_gc_mark d s = Some s'))
   \<and> (0 < d \<and> unmarked_count (heap s) \<le> d \<and> blocks_hold_payload (heap s)
        \<and> (h = 0 \<or> h \<in> header ` set (heap s))
        \<longrightarrow> (\<exists>s'. gg_gc_mark_object d s h = Some s'))
   \<and> gg_gc_mark_object (Suc d) s 0 = Some s
   \<and> (\<forall>obj. find_loop (heap s) h = Some obj \<and> marked obj \<noteq> 0
        \<longrightarrow> gg_gc_mark_object (Suc d) s h = Some s)
   \<and> (\<forall>obj. h \<noteq> 0 \<and> find_loop (heap s) h = Some obj \<and> marked obj = 0
        \<longrightarrow> gg_gc_mark_object (Suc d) s h
            = scan_body d (s\<lparr>heap := set_marked h 1 (heap s)\<rparr>) (body obj)
                (words_in_block obj) (unat (size_bytes obj) div pointer_size) 0)
   \<and> (\<forall>s'. gg_gc_mark_object d s h = Some s' \<and> h \<noteq> 0 \<and> h \<in> header ` set (heap s)
        \<longrightarrow> (\<exists>obj'. find_loop (heap s') h = Some obj' \<and> marked obj' \<noteq> 0))
   \<and> (\<forall>s'. gg_gc_mark_object d s h = Some s' \<longrightarrow> marks_only s s')"
proof (intro conjI impI allI)
  fix s'
  assume "gg_gc_mark_object d s h = Some s'"
  then show "marks_only s s'" by (rule mark_form)
next
  assume "length (heap s) \<le> d \<and> blocks_hold_payload (heap s)"
  then show "\<exists>s'. gg_gc_mark d s = Some s'" by (simp add: gg_gc_mark_returns)
next
  assume "0 < d \<and> unmarked_count (heap s) \<le> d \<and> blocks_hold_payload (heap s)
    \<and> (h = 0 \<or> h \<in> header ` set (heap s))"
  then show "\<exists>s'. gg_gc_mark_object d s h = Some s'"
    using mark_returns(1) [of d s h] by blast
next
  show "gg_gc_mark_object (Suc d) s 0 = Some s" by simp
next
  fix obj
  assume "find_loop (heap s) h = Some obj \<and> marked obj \<noteq> 0"
  then show "gg_gc_mark_object (Suc d) s h = Some s" by simp
next
  fix obj
  assume "h \<noteq> 0 \<and> find_loop (heap s) h = Some obj \<and> marked obj = 0"
  then show "gg_gc_mark_object (Suc d) s h
      = scan_body d (s\<lparr>heap := set_marked h 1 (heap s)\<rparr>) (body obj)
          (words_in_block obj) (unat (size_bytes obj) div pointer_size) 0"
    by simp
next
  fix s'
  assume a: "gg_gc_mark_object d s h = Some s' \<and> h \<noteq> 0 \<and> h \<in> header ` set (heap s)"
  then obtain obj where obj: "find_loop (heap s) h = Some obj"
    using find_loop_None [of "heap s" h] by auto
  from a obtain d' where d: "d = Suc d'" by (cases d) simp_all
  show "\<exists>obj'. find_loop (heap s') h = Some obj' \<and> marked obj' \<noteq> 0"
  proof (cases "marked obj = 0")
    case False
    with a obj d have "s' = s" by (simp split: if_splits)
    with obj False show ?thesis by simp
  next
    case True
    let ?s2 = "s\<lparr>heap := set_marked h 1 (heap s)\<rparr>"
    from a obj d True have run: "scan_body d' ?s2 (body obj) (words_in_block obj)
        (unat (size_bytes obj) div pointer_size) 0 = Some s'"
      by (simp split: if_splits)
    have "marks_only ?s2 s'"
      using mark_form(2) [OF run] .
    then obtain N2 where "heap s' = mark_all N2 (mark_all {h} (heap s))"
      using marks_only_heap [of ?s2 s'] by (auto simp: set_marked_mark_all)
    then have "find_loop (heap s') h = Some (mark_if ({h} \<union> N2) obj)"
      by (simp add: mark_all_mark_all find_loop_mark_all obj)
    moreover from find_loop_Some [OF obj] have "marked (mark_if ({h} \<union> N2) obj) \<noteq> 0"
      by (simp add: mark_if_fields)
    ultimately show ?thesis by blast
  qed
qed

lemma mark_returns_within_blocks_example:
  "length (heap ex_state) \<le> 4 \<and> blocks_hold_payload (heap ex_state)
   \<and> (\<exists>s'. gg_gc_mark 4 ex_state = Some s')
   \<and> (\<exists>s'. gg_gc_mark_object 4 ex_state 4096 = Some s')"
proof -
  have l: "length (heap ex_state) \<le> 4" "unmarked_count (heap ex_state) \<le> 4"
    "4096 \<in> header ` set (heap ex_state)"
    by (simp_all add: ex_defs unmarked_count_def)
  with mark_returns_within_blocks [of ex_state 4 4096] ex_state_blocks show ?thesis
    by simp
qed

text \<open>
  C9. The claim is that the mark phase terminates on every finite heap. It fails on a
  heap of one object that the interface produces:
  \<^verbatim>\<open>gg_gc_init(); gg_gc_add_root(&slot); slot = gg_gc_alloc((size_t)-5)\<close>. The request
  \<^verbatim>\<open>sizeof(gg_gc_header) + size\<close> wraps around to 19 bytes, the host allocator hands
  out a block of 19 bytes, and the header records a size of \<open>2\<^sup>6\<^sup>4 - 5\<close> bytes. The mark
  phase finds the object from the root, sets its mark bit and starts the scan of
  2305843009213693951 payload words, none of which is inside the block: the first read
  is outside it. So \<^verbatim>\<open>gg_gc_mark_object\<close> on that header, \<^verbatim>\<open>gg_gc_mark\<close> and
  \<^verbatim>\<open>gg_gc_collect\<close> do not return, however many stack frames they have.
\<close>

theorem mark_reads_outside_block:
  "map_option (\<lambda>s. s\<lparr>slot_mem := (\<lambda>r. if r = 16 then 8216 else 0)\<rparr>)
      (returned_state (gg_gc_alloc 0 huge_start 18446744073709551611 8192 0)) = Some huge_state
   \<and> map words_in_block (heap huge_state) = [0]
   \<and> map (\<lambda>obj. unat (size_bytes obj) div pointer_size) (heap huge_state)
       = [2305843009213693951]
   \<and> (\<forall>d. gg_gc_mark_object d huge_state 8192 = None)
   \<and> (\<forall>d. gg_gc_mark d huge_state = None)
   \<and> (\<forall>d. gg_gc_collect d huge_state = None)"
proof -
  have made: "map_option (\<lambda>s. s\<lparr>slot_mem := (\<lambda>r. if r = 16 then 8216 else 0)\<rparr>)
      (returned_state (gg_gc_alloc 0 huge_start 18446744073709551611 8192 0)) = Some huge_state"
    by (simp add: gg_gc_alloc_def check_limit_def alloc_from_host_def link_new_def
        returned_state_def calloc_request_def header_size_def huge_start_def huge_state_def
        gg_gc_add_root_def gg_gc_init_def gg_gc_zero_def GG_GC_MAX_ROOTS_def
        GG_GC_INITIAL_THRESHOLD_def word_le_nat_alt)
  have inside: "map words_in_block (heap huge_state) = [0]"
    by (simp add: huge_state_def words_in_block_def header_size_def)
  have count: "map (\<lambda>obj. unat (size_bytes obj) div pointer_size) (heap huge_state)
      = [2305843009213693951]"
    by (simp add: huge_state_def pointer_size_def)
  have object: "gg_gc_mark_object d huge_state 8192 = None" for d
  proof (cases d)
    case 0
    then show ?thesis by simp
  next
    case (Suc d')
    let ?obj = "hd (heap huge_state)"
    have found: "find_loop (heap huge_state) 8192 = Some ?obj" "marked ?obj = 0"
      by (simp_all add: huge_state_def)
    have wc: "0 < unat (size_bytes ?obj) div pointer_size" "\<not> 0 < words_in_block ?obj"
      using inside count by (simp_all add: huge_state_def)
    have "gg_gc_mark_object (Suc d') huge_state 8192
        = scan_body d' (huge_state\<lparr>heap := set_marked 8192 1 (heap huge_state)\<rparr>) (body ?obj)
            (words_in_block ?obj) (unat (size_bytes ?obj) div pointer_size) 0"
      using found by simp
    also have "\<dots> = None"
      using wc by (rule scan_body_outside)
    finally show ?thesis using Suc by simp
  qed
  have mark: "gg_gc_mark d huge_state = None" for d
  proof -
    have "gg_gc_find_header huge_state (slot_mem huge_state 16) = Some (hd (heap huge_state))"
      by (simp add: huge_state_def gg_gc_find_header_def header_size_def)
    moreover have "roots huge_state = [16]" "slot_mem huge_state 16 \<noteq> 0"
      "header (hd (heap huge_state)) = 8192"
      by (simp_all add: huge_state_def)
    ultimately show ?thesis
      using object [of d] by (simp add: gg_gc_mark_def)
  qed
  have "gg_gc_collect d huge_state = None" for d
    using mark [of d] by (simp add: gg_gc_collect_def)
  with made inside count object mark show ?thesis by blast
qed

section \<open>Bookkeeping, invariants and the memory ceiling\<close>

lemma valid_heap_length:
  assumes "valid_heap objs"
  shows "length objs < 2 ^ 64"
proof -
  from assms have d: "distinct (map header objs)" and nz: "0 \<notin> set (map header objs)"
    by (auto simp: valid_heap_def)
  have "length objs = card (set (map header objs))"
    using distinct_card [OF d] by simp
  also have "\<dots> \<le> card (UNIV - {0 :: 64 word})"
    using nz by (intro card_mono) auto
  also have "\<dots> = 2 ^ 64 - 1"
    by (simp add: card_Diff_singleton card_word)
  finally show ?thesis by simp
qed

lemma length_survivors: "length (survivors objs) \<le> length objs"
  by (simp add: survivors_def)

lemma collect_fields:
  assumes "gg_gc_collect d s = Some s'"
  shows "alloc_count s' = 0" "collections s' = collections s + 1"
    "threshold s' = (if threshold s div 2 < of_nat (length (heap s')) then threshold s * 2
       else threshold s)"
    "length (heap s') \<le> length (heap s)"
    "all_unmarked (heap s')"
    "memory_limit s' = memory_limit s" "stderr s' = stderr s" "roots s' = roots s"
    "slot_mem s' = slot_mem s"
proof -
  from collect_effect [OF assms] obtain s1 where
    m: "marks_only s s1"
    and s': "s' = adapt_threshold
       (s\<lparr>heap := survivors (heap s1),
          total_allocated := total_allocated s - heap_bytes (dead (heap s1)),
          total_collected := total_collected s + heap_bytes (dead (heap s1)),
          host_freed := host_freed s @ map header (dead (heap s1)),
          alloc_count := 0, collections := collections s + 1\<rparr>)"
    by blast
  show "alloc_count s' = 0" "collections s' = collections s + 1"
    "memory_limit s' = memory_limit s" "stderr s' = stderr s" "roots s' = roots s"
    "slot_mem s' = slot_mem s"
    by (simp_all add: s' adapt_threshold_def)
  have h: "heap s' = survivors (heap s1)"
    by (simp add: s' heap_adapt_threshold)
  show "threshold s' = (if threshold s div 2 < of_nat (length (heap s')) then threshold s * 2
       else threshold s)"
    unfolding h by (simp add: s' adapt_threshold_def count_live_eq)
  show "length (heap s') \<le> length (heap s)"
    unfolding h using length_survivors [of "heap s1"] marks_only_length [OF m] by simp
  show "all_unmarked (heap s')"
    unfolding h by (rule survivors_unmarked)
qed

text \<open>
  C5. \<^verbatim>\<open>gg_gc_collect\<close> returns when it has as many stack frames as there are objects
  and the block of every object holds its payload, and whenever it returns the allocation-since-last-GC counter is 0, the cycle counter
  is one more than before, and the threshold is doubled (in \<^verbatim>\<open>size_t\<close> arithmetic) if
  the number of objects left on the list is strictly greater than \<open>threshold / 2\<close> and
  is unchanged otherwise. The number of objects is counted in a \<^verbatim>\<open>size_t\<close>; on a well
  formed list the count is the length of the list, and below \<open>2^63\<close> the doubled
  threshold is twice the threshold.
\<close>

theorem collect_bookkeeping:
  "(length (heap s) \<le> d \<and> blocks_hold_payload (heap s)
      \<longrightarrow> (\<exists>s'. gg_gc_collect d s = Some s'))
   \<and> (\<forall>s'. gg_gc_collect d s = Some s' \<longrightarrow>
         alloc_count s' = 0 \<and> collections s' = collections s + 1
         \<and> threshold s' = (if threshold s div 2 < of_nat (length (heap s'))
              then threshold s * 2 else threshold s)
         \<and> (valid_heap (heap s) \<longrightarrow>
              (threshold s div 2 < of_nat (length (heap s'))
                 \<longleftrightarrow> unat (threshold s) div 2 < length (heap s'))))
   \<and> (unat (threshold s) < 2 ^ 63 \<longrightarrow> unat (threshold s * 2) = 2 * unat (threshold s))"
proof (intro conjI impI allI)
  assume "unat (threshold s) < 2 ^ 63"
  then have "unat (threshold s) * unat (2 :: 64 word) < 2 ^ LENGTH(64)" by simp
  then have "unat (threshold s * 2) = unat (threshold s) * unat (2 :: 64 word)"
    by (simp only: unat_mult_lem)
  then show "unat (threshold s * 2) = 2 * unat (threshold s)" by simp
next
  assume "length (heap s) \<le> d \<and> blocks_hold_payload (heap s)"
  then show "\<exists>s'. gg_gc_collect d s = Some s'" by (simp add: gg_gc_collect_returns)
next
  fix s'
  assume run: "gg_gc_collect d s = Some s'"
  note f = collect_fields [OF run]
  show "alloc_count s' = 0" by (rule f)
  show "collections s' = collections s + 1" by (rule f)
  show "threshold s' = (if threshold s div 2 < of_nat (length (heap s'))
      then threshold s * 2 else threshold s)" by (rule f)
  assume "valid_heap (heap s)"
  then have "length (heap s') < 2 ^ 64"
    using valid_heap_length [of "heap s"] f(4) by simp
  then have "unat (of_nat (length (heap s')) :: 64 word) = length (heap s')"
    by (simp add: unat_of_nat)
  then show "threshold s div 2 < of_nat (length (heap s'))
      \<longleftrightarrow> unat (threshold s) div 2 < length (heap s')"
    by (simp add: word_less_nat_alt unat_div)
qed

theorem collect_bookkeeping_witness:
  "length (heap ex_state) \<le> Suc (Suc (Suc (Suc 0))) \<and> blocks_hold_payload (heap ex_state)
   \<and> (\<exists>s'. gg_gc_collect (Suc (Suc (Suc (Suc 0)))) ex_state = Some s'
         \<and> alloc_count s' = 0 \<and> collections s' = 1 \<and> threshold s' = 1024)
   \<and> (\<exists>s'. gg_gc_collect (Suc (Suc (Suc (Suc 0)))) (ex_state\<lparr>threshold := 2\<rparr>) = Some s'
         \<and> alloc_count s' = 0 \<and> collections s' = 1 \<and> threshold s' = 4)"
proof -
  let ?d = "Suc (Suc (Suc (Suc 0)))"
  have l: "length (heap ex_state) \<le> ?d" "length (heap (ex_state\<lparr>threshold := 2\<rparr>)) \<le> ?d"
    by (simp_all add: ex_defs)
  have e1: "map_option (length \<circ> heap) (gg_gc_collect ?d ex_state) = Some 2"
    by (simp add: ex_defs run_defs)
  have e2: "map_option (length \<circ> heap) (gg_gc_collect ?d (ex_state\<lparr>threshold := 2\<rparr>)) = Some 2"
    by (simp add: ex_defs run_defs)
  have c: "collections ex_state = 0" "threshold ex_state = 1024"
    by (simp_all add: ex_defs)
  from collect_bookkeeping [of ex_state ?d] l(1) e1 c have
    "\<exists>s'. gg_gc_collect ?d ex_state = Some s'
         \<and> alloc_count s' = 0 \<and> collections s' = 1 \<and> threshold s' = 1024"
    by auto
  moreover from collect_bookkeeping [of "ex_state\<lparr>threshold := 2\<rparr>" ?d] l(2) e2 c have
    "\<exists>s'. gg_gc_collect ?d (ex_state\<lparr>threshold := 2\<rparr>) = Some s'
         \<and> alloc_count s' = 0 \<and> collections s' = 1 \<and> threshold s' = 4"
    by auto
  ultimately show ?thesis using l(1) ex_state_blocks by blast
qed

lemma alloc_from_host_Returned:
  assumes "alloc_from_host d s n c1 c2 = Returned s' p"
  shows "\<exists>s0 c. (collects d)\<^sup>*\<^sup>* s s0 \<and> c \<noteq> 0 \<and> s' = link_new s0 c n \<and> p = c + header_size"
proof (cases "c1 = 0")
  case False
  with assms have "s' = link_new s c1 n \<and> p = c1 + header_size"
    by (simp add: alloc_from_host_def)
  with False show ?thesis by blast
next
  case True
  with assms obtain s3 where s3: "gg_gc_collect d s = Some s3"
    and r: "c2 \<noteq> 0" "s' = link_new s3 c2 n" "p = c2 + header_size"
    by (auto simp: alloc_from_host_def split: option.splits if_splits)
  from s3 have "(collects d)\<^sup>*\<^sup>* s s3"
    by (simp add: collects_def r_into_rtranclp)
  with r show ?thesis by blast
qed

lemma check_limit_Returned:
  assumes "check_limit d s n c1 c2 = Returned s' p"
  shows "\<exists>s0 c. (collects d)\<^sup>*\<^sup>* s s0 \<and> c \<noteq> 0 \<and> s' = link_new s0 c n \<and> p = c + header_size"
proof (cases "0 < memory_limit s \<and> memory_limit s < total_allocated s + n")
  case False
  with assms have "alloc_from_host d s n c1 c2 = Returned s' p"
    by (simp add: check_limit_def)
  then show ?thesis by (rule alloc_from_host_Returned)
next
  case True
  with assms obtain s2 where s2: "gg_gc_collect d s = Some s2"
    and r: "alloc_from_host d s2 n c1 c2 = Returned s' p"
    by (auto simp: check_limit_def split: option.splits if_splits)
  from alloc_from_host_Returned [OF r] obtain s0 c where
    c: "(collects d)\<^sup>*\<^sup>* s2 s0" and rest: "c \<noteq> 0" "s' = link_new s0 c n" "p = c + header_size"
    by blast
  from s2 have "collects d s s2" by (simp add: collects_def)
  then have "(collects d)\<^sup>*\<^sup>* s s0"
    using c by (rule converse_rtranclp_into_rtranclp)
  with rest show ?thesis by blast
qed

lemma gg_gc_alloc_Returned:
  assumes "gg_gc_alloc d s n c1 c2 = Returned s' p"
  shows "\<exists>s0 c. (collects d)\<^sup>*\<^sup>* s s0 \<and> c \<noteq> 0 \<and> s' = link_new s0 c n \<and> p = c + header_size"
proof (cases "threshold s \<le> alloc_count s")
  case False
  with assms have "check_limit d s n c1 c2 = Returned s' p"
    by (simp add: gg_gc_alloc_def)
  then show ?thesis by (rule check_limit_Returned)
next
  case True
  with assms obtain s1 where s1: "gg_gc_collect d s = Some s1"
    and r: "check_limit d s1 n c1 c2 = Returned s' p"
    by (auto simp: gg_gc_alloc_def split: option.splits)
  from check_limit_Returned [OF r] obtain s0 c where
    c: "(collects d)\<^sup>*\<^sup>* s1 s0" and rest: "c \<noteq> 0" "s' = link_new s0 c n" "p = c + header_size"
    by blast
  from s1 have "collects d s s1" by (simp add: collects_def)
  then have "(collects d)\<^sup>*\<^sup>* s s0"
    using c by (rule converse_rtranclp_into_rtranclp)
  with rest show ?thesis by blast
qed

lemma collects_invariant:
  assumes "(collects d)\<^sup>*\<^sup>* s s0" and "P s"
    and "\<And>a b. P a \<Longrightarrow> gg_gc_collect d a = Some b \<Longrightarrow> P b"
  shows "P s0"
  using assms(1,2)
proof (induction rule: rtranclp_induct)
  case base
  then show ?case .
next
  case (step y z)
  then show ?case using assms(3) [of y z] by (simp add: collects_def)
qed

lemma unlink_loop_Some:
  "unlink_loop objs target = Some (found, rest') \<Longrightarrow>
     set rest' \<subseteq> set objs \<and> heap_bytes objs = size_bytes found + heap_bytes rest'"
proof (induction objs arbitrary: rest')
  case Nil
  then show ?case by simp
next
  case (Cons a objs)
  show ?case
  proof (cases "header a = target")
    case True
    with Cons.prems show ?thesis by auto
  next
    case False
    with Cons.prems obtain r where r: "unlink_loop objs target = Some (found, r)"
      and "rest' = a # r"
      by (auto split: option.splits)
    with Cons.IH [OF r] show ?thesis by (auto simp: algebra_simps)
  qed
qed

lemma heap_bytes_mark_all: "heap_bytes (mark_all N objs) = heap_bytes objs"
  by (induction objs) (simp_all add: mark_all_def mark_if_fields)

lemma heap_bytes_split: "heap_bytes (survivors objs) + heap_bytes (dead objs) = heap_bytes objs"
  by (induction objs) (simp_all add: survivors_def dead_def algebra_simps)

lemma collect_heap_bytes:
  assumes "gg_gc_collect d s = Some s'" and "heap_bytes (heap s) = total_allocated s"
  shows "heap_bytes (heap s') = total_allocated s'"
proof -
  from collect_effect [OF assms(1)] obtain s1 where
    m: "marks_only s s1"
    and s': "s' = adapt_threshold
       (s\<lparr>heap := survivors (heap s1),
          total_allocated := total_allocated s - heap_bytes (dead (heap s1)),
          total_collected := total_collected s + heap_bytes (dead (heap s1)),
          host_freed := host_freed s @ map header (dead (heap s1)),
          alloc_count := 0, collections := collections s + 1\<rparr>)"
    by blast
  from marks_only_heap [OF m] have "heap_bytes (heap s1) = heap_bytes (heap s)"
    by (auto simp: heap_bytes_mark_all)
  with heap_bytes_split [of "heap s1"] assms(2)
  have "heap_bytes (survivors (heap s1)) = total_allocated s - heap_bytes (dead (heap s1))"
    by (simp add: algebra_simps)
  then show ?thesis
    by (simp add: s' adapt_threshold_def)
qed

lemma heap_bytes_nat: "heap_bytes objs = of_nat (nat_bytes objs)"
  by (induction objs) simp_all

lemma nat_bytes_mark_all: "nat_bytes (mark_all N objs) = nat_bytes objs"
  by (induction objs) (simp_all add: mark_all_def mark_if_fields)

lemma nat_bytes_split: "nat_bytes (survivors objs) + nat_bytes (dead objs) = nat_bytes objs"
  by (induction objs) (simp_all add: survivors_def dead_def)

lemma unat_sub_of_nat:
  fixes t :: "64 word"
  assumes "D \<le> unat t"
  shows "unat (t - of_nat D) = unat t - D"
proof -
  have D: "unat (of_nat D :: 64 word) = D"
    using assms by (rule le_unat_uoi)
  then have "(of_nat D :: 64 word) \<le> t"
    using assms by (simp add: word_le_nat_alt)
  then show ?thesis
    by (simp add: unat_sub D)
qed

lemma collect_bytes_exact:
  assumes run: "gg_gc_collect d s = Some s'" and ex: "bytes_exact s"
  shows "bytes_exact s'" "unat (total_allocated s') \<le> unat (total_allocated s)"
proof -
  from collect_effect [OF run] obtain s1 where
    m: "marks_only s s1"
    and s': "s' = adapt_threshold
       (s\<lparr>heap := survivors (heap s1),
          total_allocated := total_allocated s - heap_bytes (dead (heap s1)),
          total_collected := total_collected s + heap_bytes (dead (heap s1)),
          host_freed := host_freed s @ map header (dead (heap s1)),
          alloc_count := 0, collections := collections s + 1\<rparr>)"
    by blast
  let ?D = "nat_bytes (dead (heap s1))"
  from marks_only_heap [OF m] have "nat_bytes (heap s1) = nat_bytes (heap s)"
    by (auto simp: nat_bytes_mark_all)
  with nat_bytes_split [of "heap s1"] ex
  have split: "nat_bytes (survivors (heap s1)) + ?D = unat (total_allocated s)"
    by (simp add: bytes_exact_def)
  then have "?D \<le> unat (total_allocated s)" by simp
  from unat_sub_of_nat [OF this]
  have t: "unat (total_allocated s') = unat (total_allocated s) - ?D"
    by (simp add: s' adapt_threshold_def heap_bytes_nat)
  have h: "heap s' = survivors (heap s1)"
    by (simp add: s' heap_adapt_threshold)
  from split t show "bytes_exact s'"
    by (simp add: bytes_exact_def h)
  from t show "unat (total_allocated s') \<le> unat (total_allocated s)"
    by simp
qed

lemma unlink_loop_nat_bytes:
  "unlink_loop objs target = Some (found, rest') \<Longrightarrow>
     nat_bytes objs = unat (size_bytes found) + nat_bytes rest'"
proof (induction objs arbitrary: rest')
  case Nil
  then show ?case by simp
next
  case (Cons a objs)
  show ?case
  proof (cases "header a = target")
    case True
    with Cons.prems show ?thesis by auto
  next
    case False
    with Cons.prems obtain r where r: "unlink_loop objs target = Some (found, r)"
      and "rest' = a # r"
      by (auto split: option.splits)
    with Cons.IH [OF r] show ?thesis by simp
  qed
qed

lemma gg_free_bytes_exact: "bytes_exact s \<Longrightarrow> bytes_exact (gg_free s ptr)"
proof (cases "unlink_loop (heap s) (ptr - header_size)")
  case None
  assume "bytes_exact s"
  with None show ?thesis by (simp add: gg_free_def bytes_exact_def)
next
  case (Some fr)
  assume ex: "bytes_exact s"
  obtain found rest' where fr: "fr = (found, rest')" by (cases fr)
  from unlink_loop_nat_bytes [OF Some [unfolded fr]] ex
  have sum: "unat (size_bytes found) + nat_bytes rest' = unat (total_allocated s)"
    by (simp add: bytes_exact_def)
  then have "size_bytes found \<le> total_allocated s"
    by (simp add: word_le_nat_alt)
  then have "unat (total_allocated s - size_bytes found) = unat (total_allocated s) - unat (size_bytes found)"
    by (rule unat_sub)
  with sum have "nat_bytes rest' = unat (total_allocated s - size_bytes found)" by simp
  with ex Some fr show ?thesis by (simp add: gg_free_def bytes_exact_def)
qed

lemma link_new_bytes_exact:
  assumes "bytes_exact a" and "unat (total_allocated a) + unat n < 2 ^ 64"
  shows "bytes_exact (link_new a c n)"
proof -
  from assms(2) have "unat (total_allocated a) + unat n < 2 ^ LENGTH(64)" by simp
  then have "unat (total_allocated a + n) = unat (total_allocated a) + unat n"
    by (simp only: unat_add_lem)
  with assms(1) show ?thesis
    by (simp add: link_new_def bytes_exact_def)
qed

lemma gg_gc_alloc_bytes_exact:
  assumes run: "gg_gc_alloc d s n c1 c2 = Returned s' p"
    and ex: "bytes_exact s" and nowrap: "unat (total_allocated s) + unat n < 2 ^ 64"
  shows "bytes_exact s'"
proof -
  from gg_gc_alloc_Returned [OF run] obtain s1 c where
    c: "(collects d)\<^sup>*\<^sup>* s s1" and s': "s' = link_new s1 c n"
    by blast
  from ex have "bytes_exact s \<and> unat (total_allocated s) \<le> unat (total_allocated s)" by simp
  with c have "bytes_exact s1 \<and> unat (total_allocated s1) \<le> unat (total_allocated s)"
  proof (rule collects_invariant)
    fix a b
    assume "bytes_exact a \<and> unat (total_allocated a) \<le> unat (total_allocated s)"
      and "gg_gc_collect d a = Some b"
    then show "bytes_exact b \<and> unat (total_allocated b) \<le> unat (total_allocated s)"
      using collect_bytes_exact [of d a b] by auto
  qed
  with nowrap have "bytes_exact s1" "unat (total_allocated s1) + unat n < 2 ^ 64" by simp_all
  then show ?thesis unfolding s' by (rule link_new_bytes_exact)
qed

text \<open>
  What the code keeps of the byte counter. The sum of the \<^verbatim>\<open>size\<close> fields along the
  list, taken in \<^verbatim>\<open>size_t\<close> arithmetic as the counter is, equals \<^verbatim>\<open>total_allocated\<close> after
  \<^verbatim>\<open>gg_gc_init\<close>, and every returning \<^verbatim>\<open>gg_gc_alloc\<close>, every \<^verbatim>\<open>gg_gc_collect\<close>,
  \<^verbatim>\<open>gg_free\<close> and \<^verbatim>\<open>gg_gc_shutdown\<close> preserves the equality. The sum as a natural number
  (\<open>bytes_exact\<close>) is preserved by \<^verbatim>\<open>gg_gc_collect\<close>, \<^verbatim>\<open>gg_free\<close> and \<^verbatim>\<open>gg_gc_shutdown\<close>,
  and by \<^verbatim>\<open>gg_gc_alloc(n)\<close> only as long as \<^verbatim>\<open>total_allocated + n\<close> is below \<open>2^64\<close>.
\<close>

lemma total_allocated_is_sum:
  "heap_bytes (heap (gg_gc_init s0)) = total_allocated (gg_gc_init s0)
   \<and> (heap_bytes (heap s) = total_allocated s \<longrightarrow>
        (\<forall>s' p. gg_gc_alloc d s n c1 c2 = Returned s' p \<longrightarrow>
           heap_bytes (heap s') = total_allocated s')
        \<and> (\<forall>s'. gg_gc_collect d s = Some s' \<longrightarrow> heap_bytes (heap s') = total_allocated s')
        \<and> heap_bytes (heap (gg_free s ptr)) = total_allocated (gg_free s ptr)
        \<and> heap_bytes (heap (gg_gc_shutdown s)) = total_allocated (gg_gc_shutdown s))
   \<and> bytes_exact (gg_gc_init s0)
   \<and> (bytes_exact s \<longrightarrow>
        (unat (total_allocated s) + unat n < 2 ^ 64 \<longrightarrow>
           (\<forall>s' p. gg_gc_alloc d s n c1 c2 = Returned s' p \<longrightarrow> bytes_exact s'))
        \<and> (\<forall>s'. gg_gc_collect d s = Some s' \<longrightarrow> bytes_exact s')
        \<and> bytes_exact (gg_free s ptr)
        \<and> bytes_exact (gg_gc_shutdown s))"
proof (intro conjI impI allI)
  show "heap_bytes (heap (gg_gc_init s0)) = total_allocated (gg_gc_init s0)"
    by (simp add: gg_gc_init_def)
  show "bytes_exact (gg_gc_init s0)"
    by (simp add: gg_gc_init_def bytes_exact_def)
next
  assume inv: "heap_bytes (heap s) = total_allocated s"
  show "heap_bytes (heap (gg_gc_shutdown s)) = total_allocated (gg_gc_shutdown s)"
    by (simp add: gg_gc_shutdown_def)
  show "heap_bytes (heap (gg_free s ptr)) = total_allocated (gg_free s ptr)"
  proof (cases "ptr = 0")
    case True
    with inv show ?thesis by (simp add: gg_free_def)
  next
    case False
    show ?thesis
    proof (cases "unlink_loop (heap s) (ptr - header_size)")
      case None
      with False inv show ?thesis by (simp add: gg_free_def)
    next
      case (Some fr)
      obtain found rest' where fr: "fr = (found, rest')" by (cases fr)
      from unlink_loop_Some [OF Some [unfolded fr]] inv False Some fr show ?thesis
        by (simp add: gg_free_def algebra_simps)
    qed
  qed
  {
    fix s'
    assume "gg_gc_collect d s = Some s'"
    then show "heap_bytes (heap s') = total_allocated s'"
      using inv by (rule collect_heap_bytes)
  }
  {
    fix s' p
    assume "gg_gc_alloc d s n c1 c2 = Returned s' p"
    from gg_gc_alloc_Returned [OF this] obtain s1 c where
      c: "(collects d)\<^sup>*\<^sup>* s s1" and s': "s' = link_new s1 c n"
      by blast
    from c inv have "heap_bytes (heap s1) = total_allocated s1"
      by (rule collects_invariant) (rule collect_heap_bytes)
    then show "heap_bytes (heap s') = total_allocated s'"
      by (simp add: s' link_new_def algebra_simps)
  }
next
  assume ex: "bytes_exact s"
  show "bytes_exact (gg_gc_shutdown s)"
    by (simp add: gg_gc_shutdown_def bytes_exact_def)
  show "bytes_exact (gg_free s ptr)"
    using ex by (rule gg_free_bytes_exact)
  {
    fix s'
    assume "gg_gc_collect d s = Some s'"
    then show "bytes_exact s'"
      using ex by (rule collect_bytes_exact)
  }
  {
    fix s' p
    assume "unat (total_allocated s) + unat n < 2 ^ 64"
      and "gg_gc_alloc d s n c1 c2 = Returned s' p"
    with ex show "bytes_exact s'"
      using gg_gc_alloc_bytes_exact by blast
  }
qed

lemma total_allocated_is_sum_example:
  "heap_bytes (heap ex_state) = total_allocated ex_state \<and> bytes_exact ex_state
   \<and> unat (total_allocated ex_state) + unat (40 :: 64 word) < 2 ^ 64
   \<and> (\<exists>s' p. gg_gc_alloc 4 ex_state 40 20480 0 = Returned s' p
         \<and> heap_bytes (heap s') = total_allocated s' \<and> bytes_exact s')
   \<and> (\<exists>s'. gg_gc_collect 4 ex_state = Some s' \<and> heap_bytes (heap s') = total_allocated s'
         \<and> bytes_exact s')
   \<and> heap_bytes (heap (gg_free ex_state 8216)) = total_allocated (gg_free ex_state 8216)
   \<and> bytes_exact (gg_free ex_state 8216)
   \<and> heap_bytes (heap (gg_gc_shutdown ex_state)) = total_allocated (gg_gc_shutdown ex_state)"
proof -
  have inv: "heap_bytes (heap ex_state) = total_allocated ex_state" "bytes_exact ex_state"
    "unat (total_allocated ex_state) + unat (40 :: 64 word) < 2 ^ 64"
    by (simp_all add: ex_defs bytes_exact_def)
  have "length (heap ex_state) \<le> 4"
    by (simp add: ex_defs)
  then obtain s1 where c: "gg_gc_collect 4 ex_state = Some s1"
    using gg_gc_collect_returns ex_state_blocks by blast
  have a: "gg_gc_alloc 4 ex_state 40 20480 0
      = Returned (link_new ex_state 20480 40) (20480 + header_size)"
    by (simp add: gg_gc_alloc_def check_limit_def alloc_from_host_def ex_defs)
  from total_allocated_is_sum [of gg_gc_zero ex_state 4 40 20480 0 8216] inv c a
  show ?thesis by simp
qed

text \<open>
  C3. The claim is that \<^verbatim>\<open>total_allocated\<close> equals the sum of the \<^verbatim>\<open>size\<close> fields of the
  objects on the list and that every \<^verbatim>\<open>gg_gc_alloc\<close> preserves the equality. It fails
  after \<^verbatim>\<open>gg_gc_init(); gg_gc_alloc(10); gg_gc_alloc((size_t)-5)\<close>: the second call adds
  \<open>2\<^sup>6\<^sup>4 - 5\<close> to the counter in \<^verbatim>\<open>size_t\<close> arithmetic and does not test for overflow, so
  it returns with the counter at 5, while the \<^verbatim>\<open>size\<close> fields of the two objects on the
  list sum to \<open>2\<^sup>6\<^sup>4 + 5\<close>. Before the call the counter and the sum are both 10.
\<close>

theorem alloc_wraps_total_allocated:
  "returned_state (gg_gc_alloc 0 (gg_gc_init gg_gc_zero) 10 4096 0) = Some ten_state
   \<and> nat_bytes (heap ten_state) = 10 \<and> unat (total_allocated ten_state) = 10
   \<and> returned_state (gg_gc_alloc 0 ten_state 18446744073709551611 8192 0) = Some sum_state
   \<and> nat_bytes (heap sum_state) = 18446744073709551621
   \<and> unat (total_allocated sum_state) = 5"
proof (intro conjI)
  show "returned_state (gg_gc_alloc 0 (gg_gc_init gg_gc_zero) 10 4096 0) = Some ten_state"
    by (simp add: gg_gc_alloc_def check_limit_def alloc_from_host_def link_new_def
        calloc_request_def returned_state_def header_size_def ten_state_def gg_gc_zero_def
        gg_gc_init_def GG_GC_INITIAL_THRESHOLD_def word_le_nat_alt)
  show "returned_state (gg_gc_alloc 0 ten_state 18446744073709551611 8192 0) = Some sum_state"
    by (simp add: gg_gc_alloc_def check_limit_def alloc_from_host_def link_new_def
        calloc_request_def returned_state_def header_size_def ten_state_def sum_state_def
        gg_gc_zero_def word_le_nat_alt)
  show "nat_bytes (heap ten_state) = 10" "unat (total_allocated ten_state) = 10"
    by (simp_all add: ten_state_def)
  show "nat_bytes (heap sum_state) = 18446744073709551621"
    "unat (total_allocated sum_state) = 5"
    by (simp_all add: sum_state_def)
qed

lemma all_unmarked_subset: "all_unmarked objs \<Longrightarrow> set objs' \<subseteq> set objs \<Longrightarrow> all_unmarked objs'"
  by (auto simp: all_unmarked_def)

text \<open>
  C7, as the code has it. When \<^verbatim>\<open>gg_gc_collect\<close> returns, every object on the list has
  mark bit 0, whatever the mark bits were before; the list is empty after
  \<^verbatim>\<open>gg_gc_init\<close>; the object a returning \<^verbatim>\<open>gg_gc_alloc\<close> hands out is the head of the
  list and has mark bit 0; and \<^verbatim>\<open>gg_gc_alloc\<close>, \<^verbatim>\<open>gg_free\<close>, \<^verbatim>\<open>gg_gc_shutdown\<close>,
  \<^verbatim>\<open>gg_gc_add_root\<close> and \<^verbatim>\<open>gg_gc_set_memory_limit\<close> keep all mark bits 0. So the mark
  bit of every object on the list is 0 whenever no collection cycle is running.
\<close>

theorem mark_bits_clear_when_idle:
  "(\<forall>s'. gg_gc_collect d s = Some s' \<longrightarrow> all_unmarked (heap s'))
   \<and> all_unmarked (heap (gg_gc_init s))
   \<and> (\<forall>s' p. gg_gc_alloc d s n c1 c2 = Returned s' p \<longrightarrow>
         (\<exists>obj rest. heap s' = obj # rest \<and> header obj + header_size = p \<and> marked obj = 0))
   \<and> (all_unmarked (heap s) \<longrightarrow>
         (\<forall>s' p. gg_gc_alloc d s n c1 c2 = Returned s' p \<longrightarrow> all_unmarked (heap s'))
         \<and> all_unmarked (heap (gg_free s ptr))
         \<and> all_unmarked (heap (gg_gc_shutdown s))
         \<and> all_unmarked (heap (gg_gc_add_root s r))
         \<and> all_unmarked (heap (gg_gc_set_memory_limit s l)))"
proof (intro conjI impI allI)
  fix s'
  assume "gg_gc_collect d s = Some s'"
  then show "all_unmarked (heap s')" by (rule collect_fields)
next
  show "all_unmarked (heap (gg_gc_init s))"
    by (simp add: gg_gc_init_def all_unmarked_def)
next
  fix s' p
  assume "gg_gc_alloc d s n c1 c2 = Returned s' p"
  from gg_gc_alloc_Returned [OF this] obtain s1 c where
    "s' = link_new s1 c n" "p = c + header_size"
    by blast
  then show "\<exists>obj rest. heap s' = obj # rest \<and> header obj + header_size = p \<and> marked obj = 0"
    by (simp add: link_new_def)
next
  assume u: "all_unmarked (heap s)"
  show "all_unmarked (heap (gg_gc_shutdown s))"
    by (simp add: gg_gc_shutdown_def all_unmarked_def)
  show "all_unmarked (heap (gg_gc_add_root s r))"
    using u by (simp add: gg_gc_add_root_def)
  show "all_unmarked (heap (gg_gc_set_memory_limit s l))"
    using u by (simp add: gg_gc_set_memory_limit_def)
  show "all_unmarked (heap (gg_free s ptr))"
  proof (cases "unlink_loop (heap s) (ptr - header_size)")
    case None
    with u show ?thesis by (simp add: gg_free_def)
  next
    case (Some fr)
    obtain found rest' where fr: "fr = (found, rest')" by (cases fr)
    from unlink_loop_Some [OF Some [unfolded fr]] have "set rest' \<subseteq> set (heap s)" by simp
    with u have "all_unmarked rest'" by (rule all_unmarked_subset)
    with u Some fr show ?thesis by (simp add: gg_free_def)
  qed
  {
    fix s' p
    assume "gg_gc_alloc d s n c1 c2 = Returned s' p"
    from gg_gc_alloc_Returned [OF this] obtain s1 c where
      c: "(collects d)\<^sup>*\<^sup>* s s1" and s': "s' = link_new s1 c n"
      by blast
    from c u have "all_unmarked (heap s1)"
      by (rule collects_invariant) (rule collect_fields)
    then show "all_unmarked (heap s')"
      by (simp add: s' link_new_def all_unmarked_def)
  }
qed

theorem mark_bits_clear_when_idle_witness:
  "all_unmarked (heap ex_state)
   \<and> (\<exists>s'. gg_gc_collect 4 ex_state = Some s' \<and> all_unmarked (heap s'))
   \<and> (\<exists>s' p. gg_gc_alloc 4 ex_state 40 20480 0 = Returned s' p \<and> all_unmarked (heap s')
        \<and> (\<exists>obj rest. heap s' = obj # rest \<and> header obj + header_size = p \<and> marked obj = 0))
   \<and> all_unmarked (heap (gg_free ex_state 8216))"
proof -
  have u: "all_unmarked (heap ex_state)"
    using ex_state_valid by simp
  have "length (heap ex_state) \<le> 4"
    by (simp add: ex_defs)
  then obtain s1 where c: "gg_gc_collect 4 ex_state = Some s1"
    using gg_gc_collect_returns ex_state_blocks by blast
  have a: "gg_gc_alloc 4 ex_state 40 20480 0
      = Returned (link_new ex_state 20480 40) (20480 + header_size)"
    by (simp add: gg_gc_alloc_def check_limit_def alloc_from_host_def ex_defs)
  from mark_bits_clear_when_idle [of 4 ex_state 40 20480 0 8216] u c a
  show ?thesis by simp
qed

text \<open>
  C7 as stated fails between the two phases of a cycle: when the mark phase of the
  example heap has ended and \<^verbatim>\<open>gg_gc_collect\<close> enters \<^verbatim>\<open>gg_gc_sweep\<close>, the two reachable
  objects carry mark bit 1, and each keeps it until the sweep reaches it.
\<close>

theorem mark_bits_set_entering_sweep_counterexample:
  "map_option (map marked \<circ> heap) (gg_gc_mark (Suc (Suc 0)) ex_state) = Some [0, 0, 1, 1]"
  by (simp add: ex_defs run_defs)

lemma link_new_under_limit:
  assumes "bytes_exact a" and "unat (total_allocated a) + unat n \<le> unat (memory_limit a)"
  shows "total_allocated (link_new a c n) \<le> memory_limit (link_new a c n)"
proof -
  have "unat (memory_limit a) < 2 ^ 64"
    using unsigned_less [of "memory_limit a"] by simp
  with assms(2) have "unat (total_allocated a) + unat n < 2 ^ LENGTH(64)" by simp
  then have "unat (total_allocated a + n) = unat (total_allocated a) + unat n"
    by (simp only: unat_add_lem)
  with assms(2) show ?thesis
    by (simp add: link_new_def word_le_nat_alt)
qed

lemma alloc_from_host_limit:
  assumes run: "alloc_from_host d a n c1 c2 = Returned s' p"
    and ex: "bytes_exact a"
    and le: "unat (total_allocated a) + unat n \<le> unat (memory_limit a)"
  shows "memory_limit s' = memory_limit a \<and> total_allocated s' \<le> memory_limit s'"
proof (cases "c1 = 0")
  case False
  with run have "s' = link_new a c1 n"
    by (simp add: alloc_from_host_def)
  with link_new_under_limit [OF ex le] show ?thesis
    by (simp add: link_new_def)
next
  case True
  with run obtain s3 where s3: "gg_gc_collect d a = Some s3" and s': "s' = link_new s3 c2 n"
    by (auto simp: alloc_from_host_def split: option.splits if_splits)
  from collect_bytes_exact [OF s3 ex] collect_fields(6) [OF s3] le
  have "bytes_exact s3" "unat (total_allocated s3) + unat n \<le> unat (memory_limit s3)"
    by simp_all
  from link_new_under_limit [OF this] collect_fields(6) [OF s3] show ?thesis
    by (simp add: s' link_new_def)
qed

lemma not_over_limit:
  fixes t n l :: "64 word"
  assumes "\<not> l < t + n" and "unat t + unat n < 2 ^ 64"
  shows "unat t + unat n \<le> unat l"
proof -
  from assms(2) have "unat t + unat n < 2 ^ LENGTH(64)" by simp
  then have "unat (t + n) = unat t + unat n"
    by (simp only: unat_add_lem)
  with assms(1) show ?thesis
    by (simp add: word_less_nat_alt)
qed

lemma check_limit_limit:
  assumes run: "check_limit d a n c1 c2 = Returned s' p"
    and pos: "0 < memory_limit a"
    and ex: "bytes_exact a"
    and nowrap: "unat (total_allocated a) + unat n < 2 ^ 64"
  shows "memory_limit s' = memory_limit a \<and> total_allocated s' \<le> memory_limit s'"
proof (cases "memory_limit a < total_allocated a + n")
  case False
  with run have host: "alloc_from_host d a n c1 c2 = Returned s' p"
    by (simp add: check_limit_def)
  from not_over_limit [OF False nowrap] show ?thesis
    by (rule alloc_from_host_limit [OF host ex])
next
  case True
  with run pos obtain s2 where s2: "gg_gc_collect d a = Some s2"
    and host: "alloc_from_host d s2 n c1 c2 = Returned s' p"
    and under: "\<not> memory_limit s2 < total_allocated s2 + n"
    by (auto simp: check_limit_def split: option.splits if_splits)
  note b = collect_bytes_exact [OF s2 ex]
  from b(2) nowrap have "unat (total_allocated s2) + unat n < 2 ^ 64" by simp
  from not_over_limit [OF under this]
  have "unat (total_allocated s2) + unat n \<le> unat (memory_limit s2)" .
  from alloc_from_host_limit [OF host b(1) this] collect_fields(6) [OF s2]
  show ?thesis by auto
qed

text \<open>
  What \<^verbatim>\<open>gg_gc_alloc(n)\<close> does keep of C2, for a call with a memory ceiling set. If at the
  ceiling test \<^verbatim>\<open>total_allocated + n\<close> (in \<^verbatim>\<open>size_t\<close> arithmetic) exceeds the ceiling, a
  collection runs, and if the sum still exceeds the ceiling after it the process exits
  with code 137, having written the three lines of \<open>limit_message\<close>, which name the
  allocated, the limit and the requested byte counts, to the standard error stream;
  otherwise the call goes on to the host allocator. If moreover the byte counter has
  not wrapped around (the sizes on the list sum to \<^verbatim>\<open>total_allocated\<close> as natural
  numbers, and \<^verbatim>\<open>total_allocated + n\<close> is below \<open>2^64\<close>), a call that returns leaves
  \<^verbatim>\<open>total_allocated\<close> at most the ceiling.
\<close>

theorem alloc_respects_memory_limit:
  assumes pos: "0 < memory_limit s"
  shows "(\<forall>s1 s2. at_limit_check d s = Some s1
            \<and> memory_limit s1 < total_allocated s1 + n \<and> gg_gc_collect d s1 = Some s2 \<longrightarrow>
          gg_gc_alloc d s n c1 c2 =
            (if memory_limit s2 < total_allocated s2 + n
             then Exited 137 (s2\<lparr>stderr := stderr s @ limit_message s2 n\<rparr>)
             else alloc_from_host d s2 n c1 c2))
    \<and> (bytes_exact s \<and> unat (total_allocated s) + unat n < 2 ^ 64 \<longrightarrow>
         (\<forall>s' p. gg_gc_alloc d s n c1 c2 = Returned s' p \<longrightarrow>
            memory_limit s' = memory_limit s \<and> total_allocated s' \<le> memory_limit s'))"
proof (rule conjI)
  show "\<forall>s1 s2. at_limit_check d s = Some s1
            \<and> memory_limit s1 < total_allocated s1 + n \<and> gg_gc_collect d s1 = Some s2 \<longrightarrow>
          gg_gc_alloc d s n c1 c2 =
            (if memory_limit s2 < total_allocated s2 + n
             then Exited 137 (s2\<lparr>stderr := stderr s @ limit_message s2 n\<rparr>)
             else alloc_from_host d s2 n c1 c2)"
  proof (intro allI impI)
  fix s1 s2
  assume a: "at_limit_check d s = Some s1
      \<and> memory_limit s1 < total_allocated s1 + n \<and> gg_gc_collect d s1 = Some s2"
  then have s1: "at_limit_check d s = Some s1" and over: "memory_limit s1 < total_allocated s1 + n"
    and s2: "gg_gc_collect d s1 = Some s2"
    by simp_all
  have l1: "memory_limit s1 = memory_limit s" and e1: "stderr s1 = stderr s"
    using s1 collect_fields(6,7) [of d s s1]
    by (auto simp: at_limit_check_def split: if_splits)
  have "gg_gc_alloc d s n c1 c2 = check_limit d s1 n c1 c2"
    using s1 by (auto simp: gg_gc_alloc_def at_limit_check_def split: if_splits)
  also have "\<dots> = (if memory_limit s2 < total_allocated s2 + n
             then Exited 137 (s2\<lparr>stderr := stderr s2 @ limit_message s2 n\<rparr>)
             else alloc_from_host d s2 n c1 c2)"
    using over pos l1 s2 by (simp add: check_limit_def)
  also have "stderr s2 = stderr s"
    using collect_fields(7) [OF s2] e1 by simp
  finally show "gg_gc_alloc d s n c1 c2 =
            (if memory_limit s2 < total_allocated s2 + n
             then Exited 137 (s2\<lparr>stderr := stderr s @ limit_message s2 n\<rparr>)
             else alloc_from_host d s2 n c1 c2)" .
  qed
next
  show "bytes_exact s \<and> unat (total_allocated s) + unat n < 2 ^ 64 \<longrightarrow>
         (\<forall>s' p. gg_gc_alloc d s n c1 c2 = Returned s' p \<longrightarrow>
            memory_limit s' = memory_limit s \<and> total_allocated s' \<le> memory_limit s')"
  proof (intro impI allI)
  fix s' p
  assume hyp: "bytes_exact s \<and> unat (total_allocated s) + unat n < 2 ^ 64"
    and run: "gg_gc_alloc d s n c1 c2 = Returned s' p"
  from run obtain s1 where s1: "at_limit_check d s = Some s1"
    and chk: "check_limit d s1 n c1 c2 = Returned s' p"
    by (auto simp: gg_gc_alloc_def at_limit_check_def split: if_splits option.splits)
  have q: "bytes_exact s1 \<and> unat (total_allocated s1) \<le> unat (total_allocated s)
      \<and> memory_limit s1 = memory_limit s"
  proof (cases "threshold s \<le> alloc_count s")
    case True
    with s1 have c: "gg_gc_collect d s = Some s1" by (simp add: at_limit_check_def)
    from collect_bytes_exact [OF c] collect_fields(6) [OF c] hyp show ?thesis by simp
  next
    case False
    with s1 hyp show ?thesis by (simp add: at_limit_check_def)
  qed
  with hyp pos have "0 < memory_limit s1" "bytes_exact s1"
    "unat (total_allocated s1) + unat n < 2 ^ 64"
    by simp_all
  from check_limit_limit [OF chk this] q
  show "memory_limit s' = memory_limit s \<and> total_allocated s' \<le> memory_limit s'"
    by auto
  qed
qed

lemmas alloc_defs = gg_gc_alloc_def check_limit_def alloc_from_host_def link_new_def
  calloc_request_def returned_state_def

theorem alloc_respects_memory_limit_witness:
  "0 < memory_limit limit_state
   \<and> gg_gc_alloc 0 limit_state 2048 20480 0 =
       Exited 137 (limit_state\<lparr>collections := 1, stderr :=
         [''[ggLang GC] Fatal error: memory limit exceeded (0 bytes allocated, limit is 1024 bytes, requested 2048 bytes)'',
          ''[ggLang GC] The application has been terminated due to memory constraints.'',
          ''[ggLang GC] Increase the memory limit with 'gg init --mem <size>' or optimize memory usage.'']\<rparr>)
   \<and> 0 < memory_limit (ex_state\<lparr>memory_limit := 100\<rparr>)
   \<and> bytes_exact (ex_state\<lparr>memory_limit := 100\<rparr>)
   \<and> (\<exists>s' p. gg_gc_alloc (Suc (Suc 0)) (ex_state\<lparr>memory_limit := 100\<rparr>) 40 20480 0 = Returned s' p
         \<and> total_allocated s' \<le> memory_limit s')"
proof -
  let ?e = "ex_state\<lparr>memory_limit := 100\<rparr>"
  have pos: "0 < memory_limit limit_state" "0 < memory_limit ?e"
    by (simp_all add: limit_state_def gg_gc_set_memory_limit_def)
  have c: "at_limit_check 0 limit_state = Some limit_state"
    "memory_limit limit_state < total_allocated limit_state + 2048"
    "gg_gc_collect 0 limit_state = Some (limit_state\<lparr>collections := 1\<rparr>)"
    by (simp_all add: at_limit_check_def limit_state_def gg_gc_set_memory_limit_def
        gg_gc_init_def gg_gc_zero_def GG_GC_INITIAL_THRESHOLD_def run_defs)
  have m: "limit_message (limit_state\<lparr>collections := 1\<rparr>) 2048 =
      [''[ggLang GC] Fatal error: memory limit exceeded (0 bytes allocated, limit is 1024 bytes, requested 2048 bytes)'',
       ''[ggLang GC] The application has been terminated due to memory constraints.'',
       ''[ggLang GC] Increase the memory limit with 'gg init --mem <size>' or optimize memory usage.'']"
    by (simp add: limit_message_def limit_state_def gg_gc_set_memory_limit_def
        gg_gc_init_def gg_gc_zero_def)
  have e: "stderr limit_state = []"
    by (simp add: limit_state_def gg_gc_set_memory_limit_def gg_gc_init_def gg_gc_zero_def)
  from alloc_respects_memory_limit [OF pos(1), of 0 2048 20480 0] c
  have "gg_gc_alloc 0 limit_state 2048 20480 0 =
      Exited 137 (limit_state\<lparr>collections := 1,
        stderr := stderr limit_state @ limit_message (limit_state\<lparr>collections := 1\<rparr>) 2048\<rparr>)"
    by (simp add: limit_state_def gg_gc_set_memory_limit_def gg_gc_init_def gg_gc_zero_def)
  then have x: "gg_gc_alloc 0 limit_state 2048 20480 0 =
       Exited 137 (limit_state\<lparr>collections := 1, stderr :=
         [''[ggLang GC] Fatal error: memory limit exceeded (0 bytes allocated, limit is 1024 bytes, requested 2048 bytes)'',
          ''[ggLang GC] The application has been terminated due to memory constraints.'',
          ''[ggLang GC] Increase the memory limit with 'gg init --mem <size>' or optimize memory usage.'']\<rparr>)"
    by (simp only: m e append_Nil)
  have b: "bytes_exact ?e" "unat (total_allocated ?e) + unat (40 :: 64 word) < 2 ^ 64"
    by (simp_all add: bytes_exact_def ex_defs)
  have "returned_state (gg_gc_alloc (Suc (Suc 0)) ?e 40 20480 0) \<noteq> None"
    by (simp add: alloc_defs run_defs ex_defs)
  then obtain s' p where r: "gg_gc_alloc (Suc (Suc 0)) ?e 40 20480 0 = Returned s' p"
    by (cases "gg_gc_alloc (Suc (Suc 0)) ?e 40 20480 0") (simp_all add: returned_state_def)
  with alloc_respects_memory_limit [OF pos(2), of "Suc (Suc 0)" 40 20480 0] b
  have "total_allocated s' \<le> memory_limit s'" by blast
  with r x pos b(1) show ?thesis by blast
qed

text \<open>
  C2. The code breaks the claim once a request has made the byte counter wrap around.
  From \<^verbatim>\<open>gg_gc_init(); gg_gc_set_memory_limit(15); gg_gc_add_root(slot)\<close> the calls
  \<^verbatim>\<open>gg_gc_alloc(10)\<close> and \<^verbatim>\<open>gg_gc_alloc((size_t)-5)\<close> both return and lead to
  \<open>wrap_state\<close>: the second request is far above the ceiling, but
  \<^verbatim>\<open>total_allocated + size\<close> wraps around to 5, so neither a collection nor the exit
  happens. In \<open>wrap_state\<close> the call \<^verbatim>\<open>gg_gc_alloc(8)\<close> passes the ceiling test (5 + 8);
  when the host allocator refuses the first request, the collection frees the
  unreferenced object of size \<open>2^64 - 5\<close>, which takes the counter from 5 to 10, the
  retry succeeds, and the call returns with \<^verbatim>\<open>total_allocated\<close> at 18, above the
  ceiling of 15.
\<close>

theorem alloc_returns_over_limit:
  "Option.bind (returned_state (gg_gc_alloc 0 wrap_start 10 4096 0))
     (\<lambda>s. returned_state (gg_gc_alloc 0 s 18446744073709551611 8192 0)) = Some wrap_state
   \<and> 0 < memory_limit wrap_state
   \<and> map_option total_allocated (returned_state (gg_gc_alloc (Suc 0) wrap_state 8 0 12288))
       = Some 18
   \<and> map_option memory_limit (returned_state (gg_gc_alloc (Suc 0) wrap_state 8 0 12288))
       = Some 15"
proof (intro conjI)
  show "Option.bind (returned_state (gg_gc_alloc 0 wrap_start 10 4096 0))
     (\<lambda>s. returned_state (gg_gc_alloc 0 s 18446744073709551611 8192 0)) = Some wrap_state"
    by (simp add: alloc_defs header_size_def wrap_start_def wrap_state_def gg_gc_zero_def
        gg_gc_init_def gg_gc_set_memory_limit_def gg_gc_add_root_def GG_GC_MAX_ROOTS_def
        GG_GC_INITIAL_THRESHOLD_def word_le_nat_alt)
  show "0 < memory_limit wrap_state"
    by (simp add: wrap_state_def)
  show "map_option total_allocated (returned_state (gg_gc_alloc (Suc 0) wrap_state 8 0 12288))
       = Some 18"
    by (simp add: alloc_defs run_defs wrap_state_def gg_gc_zero_def)
  show "map_option memory_limit (returned_state (gg_gc_alloc (Suc 0) wrap_state 8 0 12288))
       = Some 15"
    by (simp add: alloc_defs run_defs wrap_state_def gg_gc_zero_def)
qed

section \<open>The states between calls of the interface\<close>

text \<open>
  Every state the interface produces has a well-formed list with all mark bits 0:
  the two assumptions on the state in which a collection starts.
\<close>

lemma valid_heap_headers:
  "valid_heap objs \<longleftrightarrow> distinct (map header objs)
     \<and> (\<forall>h \<in> set (map header objs). h \<noteq> 0 \<and> h + header_size \<noteq> 0)"
  by (auto simp: valid_heap_def)

lemma all_unmarked_marks: "all_unmarked objs \<longleftrightarrow> (\<forall>m \<in> set (map marked objs). m = 0)"
  by (auto simp: all_unmarked_def)

lemma valid_heap_survivors: "valid_heap objs \<Longrightarrow> valid_heap (survivors objs)"
proof -
  assume v: "valid_heap objs"
  have "map header (survivors objs) = map header (filter (\<lambda>obj. marked obj \<noteq> 0) objs)"
    by (simp add: survivors_def)
  moreover have "distinct (map header (filter (\<lambda>obj. marked obj \<noteq> 0) objs))"
    using v by (simp add: valid_heap_def distinct_map_filter)
  moreover have "set (map header (filter (\<lambda>obj. marked obj \<noteq> 0) objs)) \<subseteq> set (map header objs)"
    by auto
  ultimately show ?thesis
    using v unfolding valid_heap_headers by auto
qed

lemma collect_valid_heap:
  assumes "gg_gc_collect d s = Some s'" and "valid_heap (heap s)"
  shows "valid_heap (heap s')"
proof -
  from collect_effect [OF assms(1)] obtain s1 where
    m: "marks_only s s1"
    and s': "s' = adapt_threshold
       (s\<lparr>heap := survivors (heap s1),
          total_allocated := total_allocated s - heap_bytes (dead (heap s1)),
          total_collected := total_collected s + heap_bytes (dead (heap s1)),
          host_freed := host_freed s @ map header (dead (heap s1)),
          alloc_count := 0, collections := collections s + 1\<rparr>)"
    by blast
  from marks_only_heap [OF m] assms(2) have "valid_heap (heap s1)"
    by (auto simp: valid_heap_mark_all)
  then have "valid_heap (survivors (heap s1))" by (rule valid_heap_survivors)
  then show ?thesis by (simp add: s' heap_adapt_threshold)
qed

lemma unlink_loop_headers:
  "unlink_loop objs target = Some (found, rest') \<Longrightarrow> distinct (map header objs) \<Longrightarrow>
     distinct (map header rest')"
proof (induction objs arbitrary: rest')
  case Nil
  then show ?case by simp
next
  case (Cons a objs)
  show ?case
  proof (cases "header a = target")
    case True
    with Cons.prems show ?thesis by auto
  next
    case False
    with Cons.prems obtain r where r: "unlink_loop objs target = Some (found, r)"
      and rest': "rest' = a # r"
      by (auto split: option.splits)
    from Cons.prems have d: "distinct (map header objs)" and a: "header a \<notin> header ` set objs"
      by auto
    from unlink_loop_Some [OF r] have "set r \<subseteq> set objs" by simp
    with a have "header a \<notin> header ` set r" by auto
    with Cons.IH [OF r d] rest' show ?thesis by simp
  qed
qed

lemma gg_free_valid_heap: "valid_heap (heap s) \<Longrightarrow> valid_heap (heap (gg_free s ptr))"
proof (cases "unlink_loop (heap s) (ptr - header_size)")
  case None
  assume "valid_heap (heap s)"
  with None show ?thesis by (simp add: gg_free_def)
next
  case (Some fr)
  assume v: "valid_heap (heap s)"
  obtain found rest' where fr: "fr = (found, rest')" by (cases fr)
  from unlink_loop_Some [OF Some [unfolded fr]] have sub: "set rest' \<subseteq> set (heap s)" by simp
  from unlink_loop_headers [OF Some [unfolded fr]] v have "distinct (map header rest')"
    by (simp add: valid_heap_def)
  with sub v have "valid_heap rest'"
    by (auto simp: valid_heap_def)
  with v Some fr show ?thesis by (simp add: gg_free_def)
qed

lemma interface_state_invariant:
  "interface_state s \<Longrightarrow> valid_heap (heap s) \<and> all_unmarked (heap s)"
proof (induction rule: interface_state.induct)
  case (after_init s)
  show ?case by (simp add: gg_gc_init_def valid_heap_def all_unmarked_def)
next
  case (after_alloc s d n c1 c2 s' p)
  from gg_gc_alloc_Returned [OF after_alloc.hyps(2)] obtain s1 c where
    c: "(collects d)\<^sup>*\<^sup>* s s1" and s': "s' = link_new s1 c n" and p: "p = c + header_size"
    by blast
  from c after_alloc.IH have "valid_heap (heap s1) \<and> all_unmarked (heap s1)"
  proof (rule collects_invariant)
    fix a b
    assume "valid_heap (heap a) \<and> all_unmarked (heap a)" and "gg_gc_collect d a = Some b"
    then show "valid_heap (heap b) \<and> all_unmarked (heap b)"
      using collect_valid_heap collect_fields(5) by blast
  qed
  moreover from after_alloc.hyps(3) have "fresh_block (heap s1) c"
    by (simp add: s' p link_new_def)
  ultimately show ?case
    by (simp add: s' link_new_def valid_heap_def all_unmarked_def fresh_block_def)
next
  case (after_collect s d s')
  then show ?case using collect_valid_heap collect_fields(5) by blast
next
  case (after_free s ptr)
  have "all_unmarked (heap (gg_free s ptr))"
  proof (cases "unlink_loop (heap s) (ptr - header_size)")
    case None
    with after_free.IH show ?thesis by (simp add: gg_free_def)
  next
    case (Some fr)
    obtain found rest' where fr: "fr = (found, rest')" by (cases fr)
    from unlink_loop_Some [OF Some [unfolded fr]] have "set rest' \<subseteq> set (heap s)" by simp
    with after_free.IH have "all_unmarked rest'" using all_unmarked_subset by blast
    with after_free.IH Some fr show ?thesis by (simp add: gg_free_def)
  qed
  with after_free.IH show ?case by (simp add: gg_free_valid_heap)
next
  case (after_add_root s r)
  then show ?case by (simp add: gg_gc_add_root_def)
next
  case (after_set_memory_limit s l)
  then show ?case by (simp add: gg_gc_set_memory_limit_def)
next
  case (after_shutdown s)
  show ?case by (simp add: gg_gc_shutdown_def valid_heap_def all_unmarked_def)
next
  case (after_write s objs m)
  then show ?case
    unfolding valid_heap_headers all_unmarked_marks by simp
qed

text \<open>
  The blocks of the interface states: every object lies in the block \<^verbatim>\<open>gg_gc_alloc\<close>
  asked the host allocator for, of \<^verbatim>\<open>sizeof(gg_gc_header) + size\<close> bytes in \<^verbatim>\<open>size_t\<close>
  arithmetic. So the block of an object holds its payload exactly when that sum did not
  wrap around, which is when \<open>size + 24\<close> is below \<open>2\<^sup>6\<^sup>4\<close>.
\<close>

lemma requested_blocks_iff:
  "requested_blocks objs \<longleftrightarrow> (\<forall>obj \<in> set objs. block_bytes obj = calloc_request (size_bytes obj))"
  by (simp add: requested_blocks_def)

lemma requested_blocks_mark_all: "requested_blocks (mark_all N objs) = requested_blocks objs"
  by (simp add: requested_blocks_iff mark_all_def mark_if_fields)

lemma requested_blocks_survivors: "requested_blocks objs \<Longrightarrow> requested_blocks (survivors objs)"
  by (auto simp: requested_blocks_iff survivors_def)

lemma collect_requested_blocks:
  assumes "gg_gc_collect d s = Some s'" and "requested_blocks (heap s)"
  shows "requested_blocks (heap s')"
proof -
  from collect_effect [OF assms(1)] obtain s1 where
    m: "marks_only s s1"
    and s': "s' = adapt_threshold
       (s\<lparr>heap := survivors (heap s1),
          total_allocated := total_allocated s - heap_bytes (dead (heap s1)),
          total_collected := total_collected s + heap_bytes (dead (heap s1)),
          host_freed := host_freed s @ map header (dead (heap s1)),
          alloc_count := 0, collections := collections s + 1\<rparr>)"
    by blast
  from marks_only_heap [OF m] assms(2) have "requested_blocks (heap s1)"
    by (auto simp: requested_blocks_mark_all)
  then have "requested_blocks (survivors (heap s1))" by (rule requested_blocks_survivors)
  then show ?thesis by (simp add: s' heap_adapt_threshold)
qed

lemma interface_state_blocks: "interface_state s \<Longrightarrow> requested_blocks (heap s)"
proof (induction rule: interface_state.induct)
  case (after_init s)
  show ?case by (simp add: gg_gc_init_def requested_blocks_def)
next
  case (after_alloc s d n c1 c2 s' p)
  from gg_gc_alloc_Returned [OF after_alloc.hyps(2)] obtain s1 c where
    c: "(collects d)\<^sup>*\<^sup>* s s1" and s': "s' = link_new s1 c n"
    by blast
  from c after_alloc.IH have "requested_blocks (heap s1)"
  proof (rule collects_invariant)
    fix a b
    assume "requested_blocks (heap a)" and "gg_gc_collect d a = Some b"
    then show "requested_blocks (heap b)"
      using collect_requested_blocks by blast
  qed
  then show ?case
    by (simp add: s' link_new_def requested_blocks_def)
next
  case (after_collect s d s')
  then show ?case using collect_requested_blocks by blast
next
  case (after_free s ptr)
  show ?case
  proof (cases "unlink_loop (heap s) (ptr - header_size)")
    case None
    with after_free.IH show ?thesis by (simp add: gg_free_def)
  next
    case (Some fr)
    obtain found rest' where fr: "fr = (found, rest')" by (cases fr)
    from unlink_loop_Some [OF Some [unfolded fr]] have "set rest' \<subseteq> set (heap s)" by simp
    with after_free.IH have "requested_blocks rest'"
      unfolding requested_blocks_iff by blast
    with after_free.IH Some fr show ?thesis by (simp add: gg_free_def)
  qed
next
  case (after_add_root s r)
  then show ?case by (simp add: gg_gc_add_root_def)
next
  case (after_set_memory_limit s l)
  then show ?case by (simp add: gg_gc_set_memory_limit_def)
next
  case (after_shutdown s)
  show ?case by (simp add: gg_gc_shutdown_def requested_blocks_def)
next
  case (after_write s objs m)
  have "map (\<lambda>obj. calloc_request (size_bytes obj)) objs = map calloc_request (map size_bytes objs)"
    by simp
  also have "\<dots> = map calloc_request (map size_bytes (heap s))"
    using after_write.hyps by simp
  also have "\<dots> = map (\<lambda>obj. calloc_request (size_bytes obj)) (heap s)"
    by simp
  finally show ?case
    using after_write by (simp add: requested_blocks_def)
qed

lemma request_holds_payload:
  "unat header_size + unat n \<le> unat (calloc_request n) \<longleftrightarrow> unat n + 24 < 2 ^ 64"
proof
  assume "unat n + 24 < 2 ^ 64"
  then have "unat header_size + unat n < 2 ^ LENGTH(64)"
    by (simp add: header_size_def)
  then have "unat (header_size + n) = unat header_size + unat n"
    by (simp only: unat_add_lem)
  then show "unat header_size + unat n \<le> unat (calloc_request n)"
    by (simp add: calloc_request_def)
next
  assume a: "unat header_size + unat n \<le> unat (calloc_request n)"
  have "unat (calloc_request n) < 2 ^ 64"
    using unsigned_less [of "calloc_request n"] by simp
  with a show "unat n + 24 < 2 ^ 64"
    by (simp add: header_size_def)
qed

lemma blocks_hold_payload_requested:
  "requested_blocks objs \<Longrightarrow>
     blocks_hold_payload objs \<longleftrightarrow> (\<forall>obj \<in> set objs. unat (size_bytes obj) + 24 < 2 ^ 64)"
  by (simp add: requested_blocks_iff blocks_hold_payload_def request_holds_payload)

end
